theory Spec2Isabelle
  imports Main "HOL-Library.Word" "HOL-Library.Sublist" "HOL-Library.AList"
begin

section \<open>Lowering of PIR to RIR bytecode: the SSA allocator and its clients\<close>

text \<open>
  The development follows \<^verbatim>\<open>pir_2_rir.cpp\<close>: the class \<^verbatim>\<open>SSAAllocator\<close>
  (liveness, stack pre-colouring, slot allocation, the verifier), the CSSA transformation,
  the emitter's loading of the environment and the driver \<^verbatim>\<open>Pir2RirCompiler::compile\<close>.
  A failed \<^verbatim>\<open>assert\<close> and an uncaught \<^verbatim>\<open>std::out_of_range\<close> end the compilation;
  they are the \<open>Inl\<close> results of the functions below.
\<close>

subsection \<open>Errors\<close>

datatype error =
    AssertionFailed
  | OutOfRange
  | PhiInputAllocation nat nat
  | ArgNotAllocated nat nat
  | WrongValue nat nat
  | StackNotEmpty nat nat
  | EmptyStackAccess
  | NullPointer
  | InvalidIterator

subsection \<open>The IR: values, instructions, basic blocks, code\<close>

text \<open>
  A \<^verbatim>\<open>Value*\<close> is an address and a \<^verbatim>\<open>BB*\<close> is the id of the block. The heap
  \<open>vals\<close> gives what an address holds. Every value has a tag; the tags \<open>Missing\<close>,
  \<open>Env\<close> and \<open>Nil\<close> are "values, not instructions", every other tag is an instruction,
  which is what \<^verbatim>\<open>Instruction::Cast\<close> tests.
\<close>

type_synonym val = nat
type_synonym bbid = nat

datatype Tag =
    Missing | Env | Nil
  | Phi | PirCopy | MkEnv | Deopt | Branch | Return
  | LdConst | LdArg | LdFun | LdVar | StVar | MkArg | MkFunCls
  | Call | StaticCall | Force | AsTest | Inc | Add | Sub | Lt | Eq

record Instruction =
  tag :: Tag
  args :: "val list"
  input :: "bbid list"
  voyd :: bool
  hasEnv :: bool
  envSlot :: nat

record BB =
  instrs :: "val list"
  next0 :: "bbid option"
  next1 :: "bbid option"

record Code =
  entry :: bbid
  nextBBId :: nat
  bbs :: "bbid \<Rightarrow> BB"
  vals :: "val \<Rightarrow> Instruction"

definition isInstruction :: "Code \<Rightarrow> val \<Rightarrow> bool" where
  "isInstruction c v = (tag (vals c v) \<notin> {Missing, Env, Nil})"

definition isPhi :: "Code \<Rightarrow> val \<Rightarrow> bool" where
  "isPhi c v = (tag (vals c v) = Phi)"

text \<open>\<^verbatim>\<open>Phi::eachArg\<close> runs over the pairs \<^verbatim>\<open>(input[i], arg(i))\<close>.\<close>

definition phiArgs :: "Code \<Rightarrow> val \<Rightarrow> (bbid \<times> val) list" where
  "phiArgs c p = zip (input (vals c p)) (args (vals c p))"

text \<open>
  Modelled from the spec: \<^verbatim>\<open>Instruction::hasSingleUse\<close> is declared outside this file;
  the spec reads it as "used exactly once in the IR". The uses are the argument
  occurrences in the instructions of all blocks of the code.
\<close>

definition allUses :: "Code \<Rightarrow> val list" where
  "allUses c =
     concat (map (\<lambda>b. concat (map (\<lambda>i. args (vals c i)) (instrs (bbs c b))))
                 [0 ..< nextBBId c])"

definition hasSingleUse :: "Code \<Rightarrow> val \<Rightarrow> bool" where
  "hasSingleUse c v = (count_list (allUses c) v = 1)"

subsection \<open>The allocation map\<close>

text \<open>
  \<^verbatim>\<open>typedef size_t SlotNumber\<close> with \<^verbatim>\<open>unassignedSlot = 0\<close> and
  \<^verbatim>\<open>stackSlot = -1\<close>, the largest 64-bit number. Slot numbers are counted up from 1
  by the allocator; they are natural numbers here.
\<close>

type_synonym SlotNumber = nat
type_synonym Allocation = "val \<rightharpoonup> SlotNumber"

definition unassignedSlot :: SlotNumber where
  "unassignedSlot = 0"

definition stackSlot :: SlotNumber where
  "stackSlot = 2 ^ 64 - 1"

text \<open>\<^verbatim>\<open>eachArg([&](Value* v) { allocation[v] = slot; })\<close>\<close>

fun assignAll :: "val list \<Rightarrow> SlotNumber \<Rightarrow> Allocation \<Rightarrow> Allocation" where
  "assignAll [] slot al = al"
| "assignAll (v # vs) slot al = assignAll vs slot (al(v \<mapsto> slot))"

subsection \<open>Stack pre-colouring: \<^verbatim>\<open>computeStackAllocation\<close>\<close>

text \<open>
  The test of one phi argument: \<^verbatim>\<open>in->next0 != bb || in->size() < pos ||
  *(in->end() - pos) != v\<close> clears \<^verbatim>\<open>argsInRightOrder\<close>.
\<close>

definition argMisplaced :: "Code \<Rightarrow> bbid \<Rightarrow> nat \<Rightarrow> bbid \<times> val \<Rightarrow> bool" where
  "argMisplaced c bb pos a =
     (case a of (inb, v) \<Rightarrow>
        (if next0 (bbs c inb) \<noteq> Some bb then True
         else if length (instrs (bbs c inb)) < pos then True
         else instrs (bbs c inb) ! (length (instrs (bbs c inb)) - pos) \<noteq> v))"

fun argsInRightOrderLoop :: "Code \<Rightarrow> bbid \<Rightarrow> nat \<Rightarrow> (bbid \<times> val) list \<Rightarrow> bool \<Rightarrow> bool" where
  "argsInRightOrderLoop c bb pos [] ok = ok"
| "argsInRightOrderLoop c bb pos (a # as) ok =
     argsInRightOrderLoop c bb pos as (if argMisplaced c bb pos a then False else ok)"

definition argsInRightOrder :: "Code \<Rightarrow> bbid \<Rightarrow> nat \<Rightarrow> val \<Rightarrow> bool" where
  "argsInRightOrder c bb pos p = argsInRightOrderLoop c bb pos (phiArgs c p) True"

text \<open>
  The first loop over the block, from \<^verbatim>\<open>pos = 1\<close>: it stops at the first instruction
  that is not a phi and at the first phi whose arguments are not in the right order.
\<close>

fun phiSweep :: "Code \<Rightarrow> bbid \<Rightarrow> nat \<Rightarrow> val list \<Rightarrow> Allocation \<Rightarrow> Allocation" where
  "phiSweep c bb pos [] al = al"
| "phiSweep c bb pos (i # is) al =
     (if \<not> isPhi c i then al
      else if \<not> argsInRightOrder c bb pos i then al
      else phiSweep c bb (pos + 1) is
             ((assignAll (map snd (phiArgs c i)) stackSlot al)(i \<mapsto> stackSlot)))"

text \<open>
  The deque \<^verbatim>\<open>stack\<close> is a list whose last element is \<^verbatim>\<open>back()\<close>. The reverse
  iterator \<^verbatim>\<open>check\<close> is the number of elements from the bottom up to and including the
  one it points to: \<^verbatim>\<open>rbegin()\<close> is the size of the deque, \<^verbatim>\<open>rend()\<close> is 0, and
  \<^verbatim>\<open>*check\<close> is \<open>stack ! (check - 1)\<close>.
\<close>

type_synonym Stack = "val list"

text \<open>\<^verbatim>\<open>while (check != stack.rend() && *check != arg) { ++check; --newStackSize; }\<close>\<close>

fun skipMismatch :: "Stack \<Rightarrow> val \<Rightarrow> nat \<Rightarrow> nat \<Rightarrow> nat \<times> nat" where
  "skipMismatch stack arg 0 newStackSize = (0, newStackSize)"
| "skipMismatch stack arg (Suc k) newStackSize =
     (if stack ! k \<noteq> arg then skipMismatch stack arg k (newStackSize - 1)
      else (Suc k, newStackSize))"

text \<open>The body of the lambda given to \<^verbatim>\<open>eachArgRev\<close>; the state is
  \<^verbatim>\<open>(check, newStackSize, foundAll)\<close>.\<close>

definition matchArg :: "Stack \<Rightarrow> nat \<times> nat \<times> bool \<Rightarrow> val \<Rightarrow> nat \<times> nat \<times> bool" where
  "matchArg stack st arg =
     (case st of (check, newStackSize, foundAll) \<Rightarrow>
        (case skipMismatch stack arg check newStackSize of (check', n') \<Rightarrow>
           if check' = 0 then (check', n', False)
           else (check' - 1, n' - 1, foundAll)))"

definition matchArgs :: "Stack \<Rightarrow> val list \<Rightarrow> nat \<times> nat \<times> bool" where
  "matchArgs stack as =
     foldl (matchArg stack) (length stack, length stack, True) (rev as)"

text \<open>\<^verbatim>\<open>stack.resize(newStackSize)\<close>; a deque that grows is filled with null pointers.\<close>

definition resize :: "nat \<Rightarrow> Stack \<Rightarrow> Stack" where
  "resize n stack = take n stack @ replicate (n - length stack) 0"

definition tryLoadingArgsFromStack ::
  "Code \<Rightarrow> val \<Rightarrow> Stack \<times> Allocation \<Rightarrow> Stack \<times> Allocation" where
  "tryLoadingArgsFromStack c i s =
     (case s of (stack, al) \<Rightarrow>
        let as = args (vals c i) in
        if length as = 0 \<or> length stack < length as then (stack, al)
        else (case matchArgs stack as of (check, newStackSize, foundAll) \<Rightarrow>
                if \<not> foundAll then (stack, al)
                else (resize newStackSize stack, assignAll (rev as) stackSlot al)))"

text \<open>The condition under which the instruction is pushed on the deque.\<close>

definition pushable :: "Code \<Rightarrow> Allocation \<Rightarrow> val \<Rightarrow> bool" where
  "pushable c al i =
     (al i = None \<and> \<not> voyd (vals c i) \<and> \<not> isPhi c i \<and> hasSingleUse c i)"

definition windowStep :: "Code \<Rightarrow> val \<Rightarrow> Stack \<times> Allocation \<Rightarrow> Stack \<times> Allocation" where
  "windowStep c i s =
     (case tryLoadingArgsFromStack c i s of (stack, al) \<Rightarrow>
        if pushable c al i then (stack @ [i], al) else (stack, al))"

fun windowLoop :: "Code \<Rightarrow> val list \<Rightarrow> Stack \<times> Allocation \<Rightarrow> Stack \<times> Allocation" where
  "windowLoop c [] s = s"
| "windowLoop c (i # is) s = windowLoop c is (windowStep c i s)"

text \<open>
  The body run for each block, and the whole pass. \<^verbatim>\<open>Visitor::run\<close> is declared
  outside this file: the order in which it visits the blocks is the parameter \<open>order\<close>.
\<close>

definition stackAllocBB :: "Code \<Rightarrow> Allocation \<Rightarrow> bbid \<Rightarrow> Allocation" where
  "stackAllocBB c al bb =
     snd (windowLoop c (instrs (bbs c bb)) ([], phiSweep c bb 1 (instrs (bbs c bb)) al))"

definition computeStackAllocation :: "Code \<Rightarrow> bbid list \<Rightarrow> Allocation \<Rightarrow> Allocation" where
  "computeStackAllocation c order al = foldl (stackAllocBB c) al order"

subsection \<open>Liveness intervals and interference\<close>

text \<open>
  \<^verbatim>\<open>struct BBLiveness { uint8_t live = false; unsigned begin = -1; unsigned end = -1; }\<close>.
  The fields \<^verbatim>\<open>begin\<close> and \<^verbatim>\<open>end\<close> are 32-bit unsigned; they are named
  \<open>lbegin\<close> and \<open>lend\<close> here.
\<close>

record BBLiveness =
  live :: bool
  lbegin :: "32 word"
  lend :: "32 word"

definition BBLiveness_init :: BBLiveness where
  "BBLiveness_init = \<lparr> live = False, lbegin = - 1, lend = - 1 \<rparr>"

type_synonym Liveness = "BBLiveness list"

text \<open>The condition under which the loop of \<^verbatim>\<open>interfere\<close> returns true at one index.\<close>

definition overlapAt :: "BBLiveness \<Rightarrow> BBLiveness \<Rightarrow> bool" where
  "overlapAt mine their =
     (live mine \<and> live their \<and>
      (lbegin mine = lbegin their \<or>
       (lbegin mine < lbegin their \<and> lend mine \<ge> lbegin their) \<or>
       (lbegin mine > lbegin their \<and> lend their \<ge> lbegin mine)))"

text \<open>The loop \<^verbatim>\<open>for (size_t i = 0; i < size(); ++i)\<close> over both vectors.\<close>

fun interfereLoop :: "Liveness \<Rightarrow> Liveness \<Rightarrow> bool" where
  "interfereLoop (mine # ms) (their # ts) =
     (if overlapAt mine their then True else interfereLoop ms ts)"
| "interfereLoop _ _ = False"

text \<open>\<^verbatim>\<open>Liveness::interfere\<close>, with its assertion that both vectors have one size.\<close>

definition interfere :: "Liveness \<Rightarrow> Liveness \<Rightarrow> error + bool" where
  "interfere mine other =
     (if length mine \<noteq> length other then Inl AssertionFailed
      else Inr (interfereLoop mine other))"

subsection \<open>Liveness analysis: \<^verbatim>\<open>computeLiveness\<close>\<close>

text \<open>
  A \<^verbatim>\<open>std::set<Value*>\<close> is a list without duplicates, sorted by address; the worklist
  \<^verbatim>\<open>todo\<close> is such a list of blocks. The class \<^verbatim>\<open>CFG\<close> is declared outside this file:
  its three queries are the fields of the record \<open>CFG\<close>, where \<open>isPredecessor a b\<close> is the
  transitive test "\<open>a\<close> is a predecessor of \<open>b\<close>".
\<close>

type_synonym ValSet = "val list"
type_synonym LivenessMap = "val \<rightharpoonup> Liveness"

record CFG =
  exits :: "bbid list"
  immediatePredecessors :: "bbid \<Rightarrow> bbid list"
  isPredecessor :: "bbid \<Rightarrow> bbid \<Rightarrow> bool"

definition setInsert :: "nat \<Rightarrow> nat list \<Rightarrow> nat list" where
  "setInsert x xs = insort_insert x xs"

definition setInsertAll :: "nat list \<Rightarrow> nat list \<Rightarrow> nat list" where
  "setInsertAll new xs = foldr setInsert new xs"

text \<open>\<^verbatim>\<open>liveAtEnd[bb]\<close>: an absent entry is created empty.\<close>

definition liveOutOf :: "(bbid \<rightharpoonup> ValSet) \<Rightarrow> bbid \<Rightarrow> ValSet" where
  "liveOutOf la bb = (case la bb of None \<Rightarrow> [] | Some s \<Rightarrow> s)"

text \<open>\<^verbatim>\<open>accumulatedPhiInput[in].insert(v)\<close> on the map from input blocks to sets.\<close>

definition phiInputInsert :: "(bbid \<times> ValSet) list \<Rightarrow> bbid \<Rightarrow> val \<Rightarrow> (bbid \<times> ValSet) list" where
  "phiInputInsert acc inb v =
     AList.update inb (setInsert v (case map_of acc inb of None \<Rightarrow> [] | Some s \<Rightarrow> s)) acc"

text \<open>
  "Mark all (backwards) incoming live variables": the loop over \<^verbatim>\<open>liveAtEnd[bb]\<close>.
  The comparison \<^verbatim>\<open>liveRange.end < bb->size()\<close> is made in \<^verbatim>\<open>size_t\<close>, the assignment
  \<^verbatim>\<open>liveRange.end = bb->size()\<close> truncates to 32 bits.
\<close>

fun markLiveOut ::
  "bbid \<Rightarrow> nat \<Rightarrow> val list \<Rightarrow> LivenessMap \<times> ValSet \<Rightarrow> error + LivenessMap \<times> ValSet" where
  "markLiveOut bb sz [] s = Inr s"
| "markLiveOut bb sz (v # vs) s =
     (case s of (lv, accumulated) \<Rightarrow>
        (case lv v of
           None \<Rightarrow> Inl AssertionFailed
         | Some l \<Rightarrow>
             let liveRange = l ! bb in
             if \<not> live liveRange \<or> unat (lend liveRange) < sz
             then markLiveOut bb sz vs
                    (lv(v \<mapsto> l[bb := liveRange\<lparr> live := True, lend := of_nat sz \<rparr>]),
                     setInsert v accumulated)
             else markLiveOut bb sz vs (lv, accumulated)))"

text \<open>\<^verbatim>\<open>markIfNotSeen\<close>: a value seen for the first time gets a vector of \<^verbatim>\<open>bbsSize\<close>
  intervals.\<close>

definition markIfNotSeen ::
  "nat \<Rightarrow> bbid \<Rightarrow> nat \<Rightarrow> val \<Rightarrow> LivenessMap \<Rightarrow> LivenessMap \<times> bool" where
  "markIfNotSeen bbsSize bb pos v lv =
     (let l = (case lv v of None \<Rightarrow> replicate bbsSize BBLiveness_init | Some l \<Rightarrow> l);
          liveRange = l ! bb
      in if \<not> live liveRange
         then (lv(v \<mapsto> l[bb := liveRange\<lparr> live := True, lend := of_nat pos \<rparr>]), True)
         else (lv(v \<mapsto> l), False))"

fun markPhiArgs ::
  "nat \<Rightarrow> bbid \<Rightarrow> nat \<Rightarrow> (bbid \<times> val) list \<Rightarrow> LivenessMap \<times> (bbid \<times> ValSet) list \<Rightarrow>
   LivenessMap \<times> (bbid \<times> ValSet) list" where
  "markPhiArgs bbsSize bb pos [] s = s"
| "markPhiArgs bbsSize bb pos ((inb, v) # as) s =
     (case s of (lv, accPhi) \<Rightarrow>
        (case markIfNotSeen bbsSize bb pos v lv of (lv', new) \<Rightarrow>
           markPhiArgs bbsSize bb pos as
             (lv', if new then phiInputInsert accPhi inb v else accPhi)))"

fun markArgs ::
  "nat \<Rightarrow> bbid \<Rightarrow> nat \<Rightarrow> val list \<Rightarrow> LivenessMap \<times> ValSet \<Rightarrow> LivenessMap \<times> ValSet" where
  "markArgs bbsSize bb pos [] s = s"
| "markArgs bbsSize bb pos (v # vs) s =
     (case s of (lv, accumulated) \<Rightarrow>
        (case markIfNotSeen bbsSize bb pos v lv of (lv', new) \<Rightarrow>
           markArgs bbsSize bb pos vs (lv', if new then setInsert v accumulated else accumulated)))"

text \<open>The state of the walk over a block: the intervals, \<^verbatim>\<open>accumulated\<close> and
  \<^verbatim>\<open>accumulatedPhiInput\<close>.\<close>

type_synonym WalkState = "LivenessMap \<times> ValSet \<times> (bbid \<times> ValSet) list"

text \<open>The body of the \<^verbatim>\<open>do ... while\<close> loop for the instruction at position \<open>pos\<close>.\<close>

definition walkInstr :: "Code \<Rightarrow> bbid \<Rightarrow> nat \<Rightarrow> val \<Rightarrow> WalkState \<Rightarrow> error + WalkState" where
  "walkInstr c bb pos i s =
     (case s of (lv, accumulated, accPhi) \<Rightarrow>
        (case (if isPhi c i
               then (case markPhiArgs (nextBBId c) bb pos (phiArgs c i) (lv, accPhi) of
                       (lv', accPhi') \<Rightarrow> (lv', accumulated, accPhi'))
               else (case markArgs (nextBBId c) bb pos (args (vals c i)) (lv, accumulated) of
                       (lv', accumulated') \<Rightarrow> (lv', accumulated', accPhi)))
         of (lv1, acc1, accPhi1) \<Rightarrow>
           if i \<in> set acc1 then
             (case lv1 i of
                None \<Rightarrow> Inl AssertionFailed
              | Some l \<Rightarrow>
                  if \<not> live (l ! bb) then Inl AssertionFailed
                  else Inr (lv1(i \<mapsto> l[bb := (l ! bb)\<lparr> lbegin := of_nat pos \<rparr>]),
                            remove1 i acc1, accPhi1))
           else Inr (lv1, acc1, accPhi1)))"

text \<open>"Run BB in reverse": the instructions are given last first, \<open>pos\<close> is the position
  of the instruction before.\<close>

fun walkRev :: "Code \<Rightarrow> bbid \<Rightarrow> val list \<Rightarrow> nat \<Rightarrow> WalkState \<Rightarrow> error + WalkState" where
  "walkRev c bb [] pos s = Inr s"
| "walkRev c bb (i # is) pos s =
     (case walkInstr c bb (pos - 1) i s of
        Inl e \<Rightarrow> Inl e
      | Inr s' \<Rightarrow> walkRev c bb is (pos - 1) s')"

text \<open>\<^verbatim>\<open>markLiveEntry\<close> for each value of a set.\<close>

fun markLiveEntry :: "bbid \<Rightarrow> val list \<Rightarrow> LivenessMap \<Rightarrow> error + LivenessMap" where
  "markLiveEntry bb [] lv = Inr lv"
| "markLiveEntry bb (v # vs) lv =
     (case lv v of
        None \<Rightarrow> Inl AssertionFailed
      | Some l \<Rightarrow>
          if \<not> live (l ! bb) then Inl AssertionFailed
          else markLiveEntry bb vs (lv(v \<mapsto> l[bb := (l ! bb)\<lparr> lbegin := 0 \<rparr>])))"

text \<open>
  \<^verbatim>\<open>merge\<close>: when the live-out set of the block does not include the given set, the set
  is added and the block is put on the worklist.
\<close>

type_synonym MergeState = "(bbid \<rightharpoonup> ValSet) \<times> bbid list"

definition merge :: "bbid \<Rightarrow> ValSet \<Rightarrow> MergeState \<Rightarrow> MergeState" where
  "merge bb liveSet s =
     (case s of (liveAtEnd, todo) \<Rightarrow>
        let liveOut = liveOutOf liveAtEnd bb in
        if \<not> set liveSet \<subseteq> set liveOut
        then (liveAtEnd(bb \<mapsto> setInsertAll liveSet liveOut), setInsert bb todo)
        else (liveAtEnd(bb \<mapsto> liveOut), todo))"

text \<open>\<^verbatim>\<open>mergePhiInp\<close>: the loop over \<^verbatim>\<open>accumulatedPhiInput\<close>.\<close>

fun mergePhiInp :: "CFG \<Rightarrow> bbid \<Rightarrow> (bbid \<times> ValSet) list \<Rightarrow> MergeState \<Rightarrow> MergeState" where
  "mergePhiInp cfg bb [] s = s"
| "mergePhiInp cfg bb ((inBB, inLive) # rest) s =
     mergePhiInp cfg bb rest
       (if bb = inBB \<or> isPredecessor cfg inBB bb then merge bb inLive s else s)"

text \<open>The body of the loop over the immediate predecessors.\<close>

definition mergePred ::
  "CFG \<Rightarrow> ValSet \<Rightarrow> (bbid \<times> ValSet) list \<Rightarrow> bbid \<Rightarrow> MergeState \<Rightarrow> MergeState" where
  "mergePred cfg accumulated accPhi pre s =
     (case s of (liveAtEnd, todo) \<Rightarrow>
        if liveAtEnd pre = None then
          (case mergePhiInp cfg pre accPhi (liveAtEnd(pre \<mapsto> accumulated), todo) of
             (liveAtEnd', todo') \<Rightarrow> (liveAtEnd', setInsert pre todo'))
        else mergePhiInp cfg pre accPhi (merge pre accumulated (liveAtEnd, todo)))"

definition mergeIntoPredecessors ::
  "CFG \<Rightarrow> bbid \<Rightarrow> ValSet \<Rightarrow> (bbid \<times> ValSet) list \<Rightarrow> MergeState \<Rightarrow> MergeState" where
  "mergeIntoPredecessors cfg bb accumulated accPhi s =
     fold (mergePred cfg accumulated accPhi) (immediatePredecessors cfg bb) s"

text \<open>
  One turn of the \<^verbatim>\<open>while (!todo.empty())\<close> loop for the block \<open>bb\<close> taken from the
  worklist. The vectors of intervals have \<^verbatim>\<open>bbsSize\<close> entries and are indexed with the id
  of the block without a test; an id that is not below \<^verbatim>\<open>bbsSize\<close> is a failure here.
\<close>

type_synonym LivenessState = "LivenessMap \<times> (bbid \<rightharpoonup> ValSet) \<times> bbid list"

definition processBlock :: "Code \<Rightarrow> CFG \<Rightarrow> bbid \<Rightarrow> LivenessState \<Rightarrow> error + LivenessState" where
  "processBlock c cfg bb s =
     (case s of (lv, liveAtEnd, todo) \<Rightarrow>
        if \<not> bb < nextBBId c then Inl OutOfRange
        else
          let is = instrs (bbs c bb) in
          (case markLiveOut bb (length is) (liveOutOf liveAtEnd bb) (lv, []) of
             Inl e \<Rightarrow> Inl e
           | Inr (lv1, accumulated1) \<Rightarrow>
               (case walkRev c bb (rev is) (length is) (lv1, accumulated1, []) of
                  Inl e \<Rightarrow> Inl e
                | Inr (lv2, accumulated, accPhi) \<Rightarrow>
                    (case markLiveEntry bb accumulated lv2 of
                       Inl e \<Rightarrow> Inl e
                     | Inr lv3 \<Rightarrow>
                         (case markLiveEntry bb (concat (map snd accPhi)) lv3 of
                            Inl e \<Rightarrow> Inl e
                          | Inr lv4 \<Rightarrow>
                              (case mergeIntoPredecessors cfg bb accumulated accPhi
                                      (liveAtEnd(bb \<mapsto> liveOutOf liveAtEnd bb), todo) of
                                 (liveAtEnd', todo') \<Rightarrow> Inr (lv4, liveAtEnd', todo')))))))"

text \<open>
  The worklist loop; the first argument bounds the number of turns, and \<open>None\<close> is the
  result only when the bound is reached. The block taken is the first of the worklist
  (\<^verbatim>\<open>*todo.begin()\<close>).
\<close>

fun livenessLoop :: "nat \<Rightarrow> Code \<Rightarrow> CFG \<Rightarrow> LivenessState \<Rightarrow> (error + LivenessMap) option" where
  "livenessLoop 0 c cfg s = None"
| "livenessLoop (Suc n) c cfg s =
     (case s of (lv, liveAtEnd, todo) \<Rightarrow>
        (case todo of
           [] \<Rightarrow> Some (Inr lv)
         | bb # todo' \<Rightarrow>
             (case processBlock c cfg bb (lv, liveAtEnd, todo') of
                Inl e \<Rightarrow> Some (Inl e)
              | Inr s' \<Rightarrow> livenessLoop n c cfg s')))"

definition computeLiveness :: "nat \<Rightarrow> Code \<Rightarrow> CFG \<Rightarrow> (error + LivenessMap) option" where
  "computeLiveness n c cfg =
     livenessLoop n c cfg (Map.empty, Map.empty, setInsertAll (exits cfg) [])"

subsection \<open>Slot allocation: \<^verbatim>\<open>computeAllocation\<close>\<close>

text \<open>
  \<^verbatim>\<open>livenessInterval\<close> maps a value to its vector of intervals; \<^verbatim>\<open>at\<close> throws
  when the value has none. \<^verbatim>\<open>reverseAlloc\<close> maps a slot to the values placed in it; it
  is an association list, so that the slots in use are finitely many, and a slot that is
  not a key holds no value. The values of a slot are kept in the order of insertion
  (the iteration order of an \<^verbatim>\<open>unordered_set\<close> is not specified).
\<close>

type_synonym ReverseAlloc = "(SlotNumber \<times> val list) list"

definition slotValues :: "ReverseAlloc \<Rightarrow> SlotNumber \<Rightarrow> val list" where
  "slotValues ra slot = (case map_of ra slot of None \<Rightarrow> [] | Some vs \<Rightarrow> vs)"

text \<open>\<^verbatim>\<open>reverseAlloc[slot].insert(v)\<close>\<close>

definition raInsert :: "ReverseAlloc \<Rightarrow> SlotNumber \<Rightarrow> val \<Rightarrow> ReverseAlloc" where
  "raInsert ra slot v = AList.update slot (List.insert v (slotValues ra slot)) ra"

text \<open>The loop of \<^verbatim>\<open>slotIsAvailable\<close> over the values of the slot.\<close>

fun slotIsAvailableLoop :: "LivenessMap \<Rightarrow> val list \<Rightarrow> val \<Rightarrow> error + bool" where
  "slotIsAvailableLoop lv [] i = Inr True"
| "slotIsAvailableLoop lv (other # os) i =
     (case lv other of
        None \<Rightarrow> Inl OutOfRange
      | Some lo \<Rightarrow>
          (case lv i of
             None \<Rightarrow> Inl OutOfRange
           | Some li \<Rightarrow>
               (case interfere lo li of
                  Inl e \<Rightarrow> Inl e
                | Inr True \<Rightarrow> Inr False
                | Inr False \<Rightarrow> slotIsAvailableLoop lv os i)))"

definition slotIsAvailable ::
  "LivenessMap \<Rightarrow> ReverseAlloc \<Rightarrow> SlotNumber \<Rightarrow> val \<Rightarrow> error + bool" where
  "slotIsAvailable lv ra slot i = slotIsAvailableLoop lv (slotValues ra slot) i"

text \<open>
  The test of one slot in the phi pre-colouring: \<^verbatim>\<open>success = slotIsAvailable(slot, p)\<close>,
  and when it holds every argument is tested, with no early exit.
\<close>

fun phiArgsAvailable ::
  "LivenessMap \<Rightarrow> ReverseAlloc \<Rightarrow> SlotNumber \<Rightarrow> val list \<Rightarrow> bool \<Rightarrow> error + bool" where
  "phiArgsAvailable lv ra slot [] success = Inr success"
| "phiArgsAvailable lv ra slot (v # vs) success =
     (case slotIsAvailable lv ra slot v of
        Inl e \<Rightarrow> Inl e
      | Inr a \<Rightarrow> phiArgsAvailable lv ra slot vs (if \<not> a then False else success))"

definition phiSlotOk ::
  "LivenessMap \<Rightarrow> ReverseAlloc \<Rightarrow> val \<Rightarrow> val list \<Rightarrow> SlotNumber \<Rightarrow> error + bool" where
  "phiSlotOk lv ra p vs slot =
     (case slotIsAvailable lv ra slot p of
        Inl e \<Rightarrow> Inl e
      | Inr success \<Rightarrow> if success then phiArgsAvailable lv ra slot vs success else Inr False)"

lemma slotIsAvailable_unused:
  "slot \<notin> fst ` set ra \<Longrightarrow> slotIsAvailable lv ra slot i = Inr True"
  by (simp add: slotIsAvailable_def slotValues_def map_of_eq_None_iff[THEN iffD2])

lemma phiArgsAvailable_unused:
  "slot \<notin> fst ` set ra \<Longrightarrow> phiArgsAvailable lv ra slot vs success = Inr success"
  by (induction vs arbitrary: success) (simp_all add: slotIsAvailable_unused)

lemma phiSlotOk_unused: "slot \<notin> fst ` set ra \<Longrightarrow> phiSlotOk lv ra p vs slot = Inr True"
  by (simp add: phiSlotOk_def slotIsAvailable_unused phiArgsAvailable_unused)

lemma used_slot_bound: "slot \<in> fst ` set ra \<Longrightarrow> slot \<le> Max (insert 0 (fst ` set ra))"
  by (rule Max_ge) auto

text \<open>
  \<^verbatim>\<open>SlotNumber slot = unassignedSlot; while (true) { ++slot; ...; if (success) break; }\<close>
  The loop ends at the latest at the first slot above all slots in use.
\<close>

function findPhiSlot ::
  "LivenessMap \<Rightarrow> ReverseAlloc \<Rightarrow> val \<Rightarrow> val list \<Rightarrow> SlotNumber \<Rightarrow> error + SlotNumber" where
  "findPhiSlot lv ra p vs slot =
     (case phiSlotOk lv ra p vs (slot + 1) of
        Inl e \<Rightarrow> Inl e
      | Inr True \<Rightarrow> Inr (slot + 1)
      | Inr False \<Rightarrow> findPhiSlot lv ra p vs (slot + 1))"
  by pat_completeness auto
termination
proof (relation "measure (\<lambda>(lv, ra, p, vs, slot). Suc (Max (insert 0 (fst ` set ra))) - slot)",
    goal_cases)
  case 1
  show ?case by simp
next
  case (2 lv ra p vs slot x2)
  then have "phiSlotOk lv ra p vs (slot + 1) = Inr False" by simp
  then have "slot + 1 \<in> fst ` set ra"
    using phiSlotOk_unused[of "slot + 1" ra lv p vs] by auto
  then have "slot + 1 \<le> Max (insert 0 (fst ` set ra))"
    by (rule used_slot_bound)
  then show ?case by simp
qed

text \<open>\<^verbatim>\<open>findFreeSlot\<close>: the first slot from 1 that is available for the instruction.\<close>

function findFreeSlot ::
  "LivenessMap \<Rightarrow> ReverseAlloc \<Rightarrow> val \<Rightarrow> SlotNumber \<Rightarrow> error + SlotNumber" where
  "findFreeSlot lv ra i slot =
     (case slotIsAvailable lv ra (slot + 1) i of
        Inl e \<Rightarrow> Inl e
      | Inr True \<Rightarrow> Inr (slot + 1)
      | Inr False \<Rightarrow> findFreeSlot lv ra i (slot + 1))"
  by pat_completeness auto
termination
proof (relation "measure (\<lambda>(lv, ra, i, slot). Suc (Max (insert 0 (fst ` set ra))) - slot)",
    goal_cases)
  case 1
  show ?case by simp
next
  case (2 lv ra i slot x2)
  then have "slotIsAvailable lv ra (slot + 1) i = Inr False" by simp
  then have "slot + 1 \<in> fst ` set ra"
    using slotIsAvailable_unused[of "slot + 1" ra lv i] by auto
  then have "slot + 1 \<le> Max (insert 0 (fst ` set ra))"
    by (rule used_slot_bound)
  then show ?case by simp
qed

text \<open>\<^verbatim>\<open>eachArg([&](BB*, Value* v) { allocation[v] = slot; reverseAlloc[slot].insert(v); })\<close>\<close>

fun placeAll ::
  "val list \<Rightarrow> SlotNumber \<Rightarrow> Allocation \<times> ReverseAlloc \<Rightarrow> Allocation \<times> ReverseAlloc" where
  "placeAll [] slot s = s"
| "placeAll (v # vs) slot s =
     placeAll vs slot (case s of (al, ra) \<Rightarrow> (al(v \<mapsto> slot), raInsert ra slot v))"

text \<open>The body of the first visitor: pre-colour one phi together with its inputs.\<close>

definition precolorPhi ::
  "LivenessMap \<Rightarrow> Code \<Rightarrow> val \<Rightarrow> Allocation \<times> ReverseAlloc \<Rightarrow>
   error + Allocation \<times> ReverseAlloc" where
  "precolorPhi lv c i s =
     (case s of (al, ra) \<Rightarrow>
        if \<not> isPhi c i \<or> al i \<noteq> None then Inr (al, ra)
        else (case findPhiSlot lv ra i (map snd (phiArgs c i)) unassignedSlot of
                Inl e \<Rightarrow> Inl e
              | Inr slot \<Rightarrow>
                  Inr (placeAll (map snd (phiArgs c i)) slot
                         (al(i \<mapsto> slot), raInsert ra slot i))))"

text \<open>The hint: the slot of the first argument, when that is an allocated instruction.\<close>

definition slotHint :: "Code \<Rightarrow> Allocation \<Rightarrow> val \<Rightarrow> SlotNumber" where
  "slotHint c al i =
     (case args (vals c i) of
        [] \<Rightarrow> unassignedSlot
      | o1 # _ \<Rightarrow>
          if isInstruction c o1 then (case al o1 of None \<Rightarrow> unassignedSlot | Some h \<Rightarrow> h)
          else unassignedSlot)"

definition placeFree ::
  "LivenessMap \<Rightarrow> val \<Rightarrow> Allocation \<times> ReverseAlloc \<Rightarrow> error + Allocation \<times> ReverseAlloc" where
  "placeFree lv i s =
     (case s of (al, ra) \<Rightarrow>
        (case findFreeSlot lv ra i unassignedSlot of
           Inl e \<Rightarrow> Inl e
         | Inr slot \<Rightarrow> Inr (al(i \<mapsto> slot), raInsert ra slot i)))"

text \<open>The body of the loop over a block in the second visitor.\<close>

definition allocInstr ::
  "LivenessMap \<Rightarrow> Code \<Rightarrow> val \<Rightarrow> Allocation \<times> ReverseAlloc \<Rightarrow>
   error + Allocation \<times> ReverseAlloc" where
  "allocInstr lv c i s =
     (case s of (al, ra) \<Rightarrow>
        if al i = None \<and> lv i \<noteq> None then
          (let hint = slotHint c al i in
           if hint \<noteq> unassignedSlot \<and> hint \<noteq> stackSlot then
             (case slotIsAvailable lv ra hint i of
                Inl e \<Rightarrow> Inl e
              | Inr True \<Rightarrow> Inr (al(i \<mapsto> hint), raInsert ra hint i)
              | Inr False \<Rightarrow> placeFree lv i (al, ra))
           else placeFree lv i (al, ra))
        else Inr (al, ra))"

text \<open>Running a step over a list of instructions; the first failure ends the run.\<close>

fun runSteps :: "('i \<Rightarrow> 's \<Rightarrow> error + 's) \<Rightarrow> 'i list \<Rightarrow> 's \<Rightarrow> error + 's" where
  "runSteps f [] s = Inr s"
| "runSteps f (i # is) s = (case f i s of Inl e \<Rightarrow> Inl e | Inr s' \<Rightarrow> runSteps f is s')"

definition instrsOf :: "Code \<Rightarrow> bbid list \<Rightarrow> val list" where
  "instrsOf c order = concat (map (\<lambda>bb. instrs (bbs c bb)) order)"

text \<open>
  \<^verbatim>\<open>computeAllocation\<close>. \<^verbatim>\<open>Visitor\<close> and \<^verbatim>\<open>DominatorTreeVisitor\<close> are declared
  outside this file: \<open>order\<close> is the order in which the first visits the blocks and
  \<open>domOrder\<close> the preorder of the dominator tree.
\<close>

definition computeAllocation ::
  "LivenessMap \<Rightarrow> Code \<Rightarrow> bbid list \<Rightarrow> bbid list \<Rightarrow> Allocation \<Rightarrow>
   error + Allocation \<times> ReverseAlloc" where
  "computeAllocation lv c order domOrder al =
     (case runSteps (precolorPhi lv c) (instrsOf c order) (al, []) of
        Inl e \<Rightarrow> Inl e
      | Inr s \<Rightarrow> runSteps (allocInstr lv c) (instrsOf c domOrder) s)"

subsection \<open>The verifier: \<^verbatim>\<open>verify\<close>\<close>

text \<open>
  The register file maps a slot to the instruction last written to it; \<^verbatim>\<open>reg.at\<close>
  throws for a slot never written. The stack is a deque whose last element is
  \<^verbatim>\<open>back()\<close>; \<^verbatim>\<open>back\<close> and \<^verbatim>\<open>pop_back\<close> on an empty deque have no defined
  behaviour in C++ and are the failure \<open>EmptyStackAccess\<close> here.
\<close>

type_synonym RegisterFile = "SlotNumber \<rightharpoonup> val"

text \<open>
  \<^verbatim>\<open>allocation[i]\<close>: \<^verbatim>\<open>operator[]\<close> of the map inserts the default slot 0 for a
  value that has no entry.
\<close>

definition allocIndex :: "Allocation \<Rightarrow> val \<Rightarrow> SlotNumber \<times> Allocation" where
  "allocIndex al v = (case al v of None \<Rightarrow> (0, al(v \<mapsto> 0)) | Some s \<Rightarrow> (s, al))"

text \<open>The check of the arguments of a phi against the slot of the phi.\<close>

fun verifyPhiArgs ::
  "Code \<Rightarrow> val \<Rightarrow> SlotNumber \<Rightarrow> val list \<Rightarrow> Allocation \<Rightarrow> error + Allocation" where
  "verifyPhiArgs c phi slot [] al = Inr al"
| "verifyPhiArgs c phi slot (arg # as) al =
     (if \<not> isInstruction c arg then verifyPhiArgs c phi slot as al
      else (case allocIndex al arg of (s, al') \<Rightarrow>
              if s \<noteq> slot then Inl (PhiInputAllocation phi arg)
              else verifyPhiArgs c phi slot as al'))"

text \<open>The check of the arguments of another instruction, given in reverse order.\<close>

fun verifyArgs ::
  "Code \<Rightarrow> val \<Rightarrow> Allocation \<Rightarrow> RegisterFile \<Rightarrow> val list \<Rightarrow> Stack \<Rightarrow> error + Stack" where
  "verifyArgs c i al reg [] stack = Inr stack"
| "verifyArgs c i al reg (a # as) stack =
     (if \<not> isInstruction c a then verifyArgs c i al reg as stack
      else (case al a of
              None \<Rightarrow> Inl (ArgNotAllocated i a)
            | Some slot \<Rightarrow>
                if slot = stackSlot then
                  (if stack = [] then Inl EmptyStackAccess
                   else if last stack \<noteq> a then Inl (WrongValue a (last stack))
                   else verifyArgs c i al reg as (butlast stack))
                else (case reg slot of
                        None \<Rightarrow> Inl OutOfRange
                      | Some given \<Rightarrow>
                          if given \<noteq> a then Inl (WrongValue a given)
                          else verifyArgs c i al reg as stack)))"

text \<open>"Remember this instruction if it writes to a slot".\<close>

definition rememberResult ::
  "Allocation \<Rightarrow> val \<Rightarrow> RegisterFile \<times> Stack \<Rightarrow> RegisterFile \<times> Stack" where
  "rememberResult al i rs =
     (case rs of (reg, stack) \<Rightarrow>
        (case al i of
           None \<Rightarrow> (reg, stack)
         | Some slot \<Rightarrow> if slot = stackSlot then (reg, stack @ [i]) else (reg(slot \<mapsto> i), stack)))"

text \<open>The body of the loop over the instructions of a block.\<close>

definition verifyInstr ::
  "Code \<Rightarrow> val \<Rightarrow> Allocation \<times> RegisterFile \<times> Stack \<Rightarrow>
   error + Allocation \<times> RegisterFile \<times> Stack" where
  "verifyInstr c i s =
     (case s of (al, reg, stack) \<Rightarrow>
        if isPhi c i then
          (case al i of
             None \<Rightarrow> Inl OutOfRange
           | Some slot \<Rightarrow>
               (case verifyPhiArgs c i slot (map snd (phiArgs c i)) al of
                  Inl e \<Rightarrow> Inl e
                | Inr al' \<Rightarrow>
                    if slot = stackSlot then
                      (if stack = [] then Inl EmptyStackAccess
                       else Inr (al', rememberResult al' i (reg, butlast stack)))
                    else Inr (al', rememberResult al' i (reg, stack))))
        else
          (case verifyArgs c i al reg (rev (args (vals c i))) stack of
             Inl e \<Rightarrow> Inl e
           | Inr stack' \<Rightarrow> Inr (al, rememberResult al i (reg, stack'))))"

type_synonym Jmp = "bbid \<times> bbid"

text \<open>
  \<^verbatim>\<open>verifyBB\<close> calls itself for the successors whose edge was not taken before; the set
  \<^verbatim>\<open>branchTaken\<close> and the allocation are shared by all calls. The first argument bounds
  the depth of the calls: \<open>None\<close> is the result only when the bound is reached. The call
  for \<^verbatim>\<open>next1\<close> gets the register file and the stack as they are at the end of the
  block, since the call for \<^verbatim>\<open>next0\<close> worked on copies whenever \<^verbatim>\<open>next1\<close> exists.
\<close>

fun verifyBB ::
  "nat \<Rightarrow> Code \<Rightarrow> bbid \<Rightarrow> RegisterFile \<Rightarrow> Stack \<Rightarrow> Jmp set \<times> Allocation \<Rightarrow>
   (error + Jmp set \<times> Allocation) option" where
  "verifyBB 0 c bb reg stack g = None"
| "verifyBB (Suc n) c bb reg stack g =
     (case g of (branchTaken, al) \<Rightarrow>
        (case runSteps (verifyInstr c) (instrs (bbs c bb)) (al, reg, stack) of
           Inl e \<Rightarrow> Some (Inl e)
         | Inr (al1, reg1, stack1) \<Rightarrow>
             if next0 (bbs c bb) = None \<and> next1 (bbs c bb) = None \<and> length stack1 \<noteq> 0
             then Some (Inl (StackNotEmpty bb (length stack1)))
             else
               (case (case next0 (bbs c bb) of
                        None \<Rightarrow> Some (Inr (branchTaken, al1))
                      | Some b0 \<Rightarrow>
                          if (bb, b0) \<notin> branchTaken
                          then verifyBB n c b0 reg1 stack1 (insert (bb, b0) branchTaken, al1)
                          else Some (Inr (branchTaken, al1))) of
                  None \<Rightarrow> None
                | Some (Inl e) \<Rightarrow> Some (Inl e)
                | Some (Inr (taken2, al2)) \<Rightarrow>
                    (case next1 (bbs c bb) of
                       None \<Rightarrow> Some (Inr (taken2, al2))
                     | Some b1 \<Rightarrow>
                         if (bb, b1) \<notin> taken2
                         then verifyBB n c b1 reg1 stack1 (insert (bb, b1) taken2, al2)
                         else Some (Inr (taken2, al2))))))"

definition verify :: "nat \<Rightarrow> Code \<Rightarrow> Allocation \<Rightarrow> (error + Jmp set \<times> Allocation) option" where
  "verify n c al = verifyBB n c (entry c) Map.empty [] ({}, al)"

subsection \<open>The emitter: loading the arguments of an instruction\<close>

text \<open>
  The part of \<^verbatim>\<open>compileCode\<close> that runs for each instruction before the switch over
  the tags. The bytecodes it emits are the constructors of \<open>BC\<close>. The environment
  sentinels (\<^verbatim>\<open>Env::isStaticEnv\<close>, \<^verbatim>\<open>Env::notClosed()\<close>, \<^verbatim>\<open>Missing::instance()\<close>)
  are declared outside this file and are the fields of the record \<open>Sentinels\<close>.
\<close>

datatype BC =
    BC_push val
  | BC_push_unbound
  | BC_parentEnv
  | BC_ldloc nat
  | BC_stloc nat
  | BC_setEnv
  | BC_pop
  | BC_other Tag

record Sentinels =
  isStaticEnv :: "val \<Rightarrow> bool"
  notClosed :: val
  missingInstance :: val

text \<open>\<^verbatim>\<open>hasSlot\<close>, \<^verbatim>\<open>onStack\<close> and \<^verbatim>\<open>operator[]\<close> of the allocator; the last asserts
  that the value is not on the stack and returns its slot minus one.\<close>

definition hasSlot :: "Allocation \<Rightarrow> val \<Rightarrow> bool" where
  "hasSlot al v = (al v \<noteq> None)"

definition onStack :: "Allocation \<Rightarrow> val \<Rightarrow> error + bool" where
  "onStack al v = (case al v of None \<Rightarrow> Inl OutOfRange | Some s \<Rightarrow> Inr (s = stackSlot))"

definition localOf :: "Allocation \<Rightarrow> val \<Rightarrow> error + nat" where
  "localOf al v =
     (case al v of
        None \<Rightarrow> Inl OutOfRange
      | Some s \<Rightarrow> if s = stackSlot then Inl AssertionFailed else Inr (s - 1))"

text \<open>The tail shared by \<^verbatim>\<open>loadEnv\<close> and \<^verbatim>\<open>loadArg\<close>: a value that has no slot is
  not loadable, a value on the stack is in place, any other is loaded from its local.\<close>

definition loadFromSlot :: "Allocation \<Rightarrow> val \<Rightarrow> BC list \<Rightarrow> error + BC list" where
  "loadFromSlot al what cs =
     (if \<not> hasSlot al what then Inl AssertionFailed
      else (case onStack al what of
              Inl e \<Rightarrow> Inl e
            | Inr True \<Rightarrow> Inr cs
            | Inr False \<Rightarrow>
                (case localOf al what of Inl e \<Rightarrow> Inl e | Inr n \<Rightarrow> Inr (cs @ [BC_ldloc n]))))"

definition loadEnv :: "Sentinels \<Rightarrow> Allocation \<Rightarrow> val \<Rightarrow> BC list \<Rightarrow> error + BC list" where
  "loadEnv sen al what cs =
     (if isStaticEnv sen what then Inr (cs @ [BC_push what])
      else if what = notClosed sen then Inr (cs @ [BC_parentEnv])
      else loadFromSlot al what cs)"

definition loadArg ::
  "Sentinels \<Rightarrow> Code \<Rightarrow> Allocation \<Rightarrow> val \<Rightarrow> val \<Rightarrow> BC list \<Rightarrow> error + BC list" where
  "loadArg sen c al instr what cs =
     (if what = missingInstance sen then
        (if tag (vals c instr) \<noteq> MkArg then Inl AssertionFailed
         else Inr (cs @ [BC_push_unbound]))
      else loadFromSlot al what cs)"

definition explicitEnvValue :: "Code \<Rightarrow> val \<Rightarrow> bool" where
  "explicitEnvValue c instr = (tag (vals c instr) = MkEnv \<or> tag (vals c instr) = Deopt)"

text \<open>
  Modelled from the spec: \<^verbatim>\<open>Instruction::env()\<close> is declared outside this file; the
  environment operand is "identified by its index in the argument list".
\<close>

definition envOf :: "Code \<Rightarrow> val \<Rightarrow> val" where
  "envOf c instr = args (vals c instr) ! envSlot (vals c instr)"

text \<open>
  The asserted condition \<^verbatim>\<open>instr->envSlot() == instr->nargs() - 1\<close>, computed in
  \<^verbatim>\<open>size_t\<close>: for an instruction without arguments the right side wraps around.
\<close>

definition envIsLastArg :: "Code \<Rightarrow> val \<Rightarrow> bool" where
  "envIsLastArg c instr =
     ((of_nat (envSlot (vals c instr)) :: 64 word) = of_nat (length (args (vals c instr))) - 1)"

text \<open>The state of the emitter within a block: the code stream and \<^verbatim>\<open>currentEnv\<close>
  (\<open>None\<close> for the null pointer).\<close>

type_synonym EmitState = "BC list \<times> val option"

text \<open>"Step one: load and set env".\<close>

definition loadAndSetEnv ::
  "Sentinels \<Rightarrow> Code \<Rightarrow> Allocation \<Rightarrow> val \<Rightarrow> EmitState \<Rightarrow> error + EmitState" where
  "loadAndSetEnv sen c al instr s =
     (case s of (cs, currentEnv) \<Rightarrow>
        if \<not> isPhi c instr then
          (if hasEnv (vals c instr) \<and> \<not> explicitEnvValue c instr then
             (if \<not> envIsLastArg c instr then Inl AssertionFailed
              else
                let env = envOf c instr in
                if currentEnv \<noteq> Some env then
                  (case loadEnv sen al env cs of
                     Inl e \<Rightarrow> Inl e
                   | Inr cs' \<Rightarrow> Inr (cs' @ [BC_setEnv], Some env))
                else
                  (if hasSlot al env then
                     (case onStack al env of
                        Inl e \<Rightarrow> Inl e
                      | Inr True \<Rightarrow> Inr (cs @ [BC_pop], currentEnv)
                      | Inr False \<Rightarrow> Inr (cs, currentEnv))
                   else Inr (cs, currentEnv)))
           else Inr (cs, currentEnv))
        else Inr (cs, currentEnv))"

text \<open>"Step two: load the rest": the loop of \<^verbatim>\<open>eachArg\<close>.\<close>

fun loadRest ::
  "Sentinels \<Rightarrow> Code \<Rightarrow> Allocation \<Rightarrow> val \<Rightarrow> val list \<Rightarrow> BC list \<Rightarrow> error + BC list" where
  "loadRest sen c al instr [] cs = Inr cs"
| "loadRest sen c al instr (what # rest) cs =
     (case (if hasEnv (vals c instr) \<and> envOf c instr = what then
              (if explicitEnvValue c instr then loadEnv sen al what cs else Inr cs)
            else loadArg sen c al instr what cs) of
        Inl e \<Rightarrow> Inl e
      | Inr cs' \<Rightarrow> loadRest sen c al instr rest cs')"

definition loadArguments ::
  "Sentinels \<Rightarrow> Code \<Rightarrow> Allocation \<Rightarrow> val \<Rightarrow> EmitState \<Rightarrow> error + EmitState" where
  "loadArguments sen c al instr s =
     (case loadAndSetEnv sen c al instr s of
        Inl e \<Rightarrow> Inl e
      | Inr (cs, currentEnv) \<Rightarrow>
          if \<not> isPhi c instr then
            (case loadRest sen c al instr (args (vals c instr)) cs of
               Inl e \<Rightarrow> Inl e
             | Inr cs' \<Rightarrow> Inr (cs', currentEnv))
          else Inr (cs, currentEnv))"

text \<open>"Store the result", for an instruction that has one.\<close>

definition storeResult :: "Code \<Rightarrow> Allocation \<Rightarrow> val \<Rightarrow> BC list \<Rightarrow> error + BC list" where
  "storeResult c al instr cs =
     (if \<not> voyd (vals c instr) \<and> \<not> isPhi c instr then
        (if \<not> hasSlot al instr then Inr (cs @ [BC_pop])
         else (case onStack al instr of
                 Inl e \<Rightarrow> Inl e
               | Inr True \<Rightarrow> Inr cs
               | Inr False \<Rightarrow>
                   (case localOf al instr of Inl e \<Rightarrow> Inl e | Inr n \<Rightarrow> Inr (cs @ [BC_stloc n]))))
      else Inr cs)"

text \<open>
  The loop over the instructions of a block. The switch over the tags is the parameter
  \<open>dispatch\<close>: it gives the new state and tells whether the instruction ended the block
  (the \<^verbatim>\<open>return\<close> of \<^verbatim>\<open>Branch\<close>, \<^verbatim>\<open>Return\<close> and \<^verbatim>\<open>Deopt\<close>), or fails.
\<close>

fun emitInstrs ::
  "(val \<Rightarrow> EmitState \<Rightarrow> error + EmitState \<times> bool) \<Rightarrow> Sentinels \<Rightarrow> Code \<Rightarrow> Allocation \<Rightarrow>
   val list \<Rightarrow> EmitState \<Rightarrow> error + EmitState" where
  "emitInstrs dispatch sen c al [] s = Inr s"
| "emitInstrs dispatch sen c al (instr # rest) s =
     (case loadArguments sen c al instr s of
        Inl e \<Rightarrow> Inl e
      | Inr s1 \<Rightarrow>
          (case dispatch instr s1 of
             Inl e \<Rightarrow> Inl e
           | Inr ((cs2, env2), ended) \<Rightarrow>
               if ended then Inr (cs2, env2)
               else (case storeResult c al instr cs2 of
                       Inl e \<Rightarrow> Inl e
                     | Inr cs3 \<Rightarrow> emitInstrs dispatch sen c al rest (cs3, env2))))"

subsection \<open>The driver: \<^verbatim>\<open>Pir2RirCompiler::compile\<close>\<close>

text \<open>
  Modelled from the spec: the class \<^verbatim>\<open>DispatchTable\<close> is declared outside this file.
  The spec gives it \<^verbatim>\<open>capacity()\<close>, \<^verbatim>\<open>available(tier)\<close>, \<^verbatim>\<open>first()\<close> and
  \<^verbatim>\<open>put(tier, function)\<close>, with tier 0 the baseline: it is a capacity and a partial map
  from tiers to functions, \<^verbatim>\<open>available\<close> tells whether the tier has a function,
  \<^verbatim>\<open>first()\<close> is the function of tier 0 and \<^verbatim>\<open>put\<close> stores one. A closure is
  identified by its address, and the dispatch table of a closure by the \<^verbatim>\<open>SEXP\<close> from
  which \<^verbatim>\<open>DispatchTable::unpack\<close> takes it.
\<close>

type_synonym clsid = nat
type_synonym tableid = nat

record Function =
  ofClosure :: clsid
  invocationCount :: nat
  envLeaked :: bool
  envChanged :: bool
  signature :: nat

record DispatchTable =
  capacity :: nat
  slots :: "nat \<rightharpoonup> Function"

definition available :: "DispatchTable \<Rightarrow> nat \<Rightarrow> bool" where
  "available dt tier = (slots dt tier \<noteq> None)"

definition put :: "DispatchTable \<Rightarrow> nat \<Rightarrow> Function \<Rightarrow> DispatchTable" where
  "put dt tier f = dt\<lparr> slots := (slots dt)(tier \<mapsto> f) \<rparr>"

text \<open>
  The state of the compiler: the set \<^verbatim>\<open>done\<close>, the dispatch tables, and the number of
  functions produced so far (each \<^verbatim>\<open>finalize\<close> that returns has produced one).
\<close>

record CompilerState =
  done_set :: "clsid set"
  tables :: "tableid \<Rightarrow> DispatchTable"
  produced :: nat

text \<open>
  What the lowering of a closure meets, in the order of emission (promises included):
  a \<^verbatim>\<open>StaticCall\<close> with its closure and origin, a \<^verbatim>\<open>MkFunCls\<close> with its dispatch
  table and closure, or a failed assertion of the allocator, the verifier or the emitter.
  The parameter \<open>items\<close> gives this list for each closure.
\<close>

datatype Item =
    StaticCallItem clsid tableid
  | MkFunClsItem tableid clsid
  | AbortItem error

text \<open>
  \<^verbatim>\<open>compile\<close>, \<^verbatim>\<open>Pir2Rir::finalize\<close> and the walk over the items call each other; the
  first argument bounds the depth of the calls, and \<open>None\<close> is the result only when the
  bound is reached. The flag \<open>dryRun\<close> is \<^verbatim>\<open>debug.includes(DebugFlag::DryRun)\<close>.
\<close>

fun compile ::
    "nat \<Rightarrow> (clsid \<Rightarrow> Item list) \<Rightarrow> bool \<Rightarrow> clsid \<Rightarrow> tableid \<Rightarrow> CompilerState \<Rightarrow>
     (error + CompilerState) option"
  and finalize ::
    "nat \<Rightarrow> (clsid \<Rightarrow> Item list) \<Rightarrow> bool \<Rightarrow> clsid \<Rightarrow> CompilerState \<Rightarrow>
     (error + Function \<times> CompilerState) option"
  and runItems ::
    "nat \<Rightarrow> (clsid \<Rightarrow> Item list) \<Rightarrow> bool \<Rightarrow> Item list \<Rightarrow> CompilerState \<Rightarrow>
     (error + CompilerState) option"
where
  "compile 0 items dryRun cls origin st = None"
| "compile (Suc n) items dryRun cls origin st =
     (if cls \<in> done_set st then Some (Inr st)
      else
        let st1 = st\<lparr> done_set := insert cls (done_set st) \<rparr> in
        if available (tables st1 origin) 1 then Some (Inr st1)
        else
          (case finalize n items dryRun cls st1 of
             None \<Rightarrow> None
           | Some (Inl e) \<Rightarrow> Some (Inl e)
           | Some (Inr (f, st2)) \<Rightarrow>
               if dryRun then Some (Inr st2)
               else
                 (case slots (tables st2 origin) 0 of
                    None \<Rightarrow> Some (Inl NullPointer)
                  | Some oldFun \<Rightarrow>
                      Some (Inr (st2\<lparr> tables := (tables st2)
                        (origin := put (tables st2 origin) 1
                           (f\<lparr> invocationCount := invocationCount oldFun,
                               envLeaked := envLeaked oldFun,
                               envChanged := envChanged oldFun,
                               signature := signature oldFun \<rparr>)) \<rparr>)))))"
| "finalize 0 items dryRun cls st = None"
| "finalize (Suc n) items dryRun cls st =
     (case runItems n items dryRun (items cls) st of
        None \<Rightarrow> None
      | Some (Inl e) \<Rightarrow> Some (Inl e)
      | Some (Inr st') \<Rightarrow>
          Some (Inr (\<lparr> ofClosure = cls, invocationCount = 0, envLeaked = False,
                       envChanged = False, signature = 0 \<rparr>,
                     st'\<lparr> produced := Suc (produced st') \<rparr>)))"
| "runItems 0 items dryRun its st = None"
| "runItems (Suc n) items dryRun [] st = Some (Inr st)"
| "runItems (Suc n) items dryRun (AbortItem e # rest) st = Some (Inl e)"
| "runItems (Suc n) items dryRun (StaticCallItem cls origin # rest) st =
     (case compile n items dryRun cls origin st of
        None \<Rightarrow> None
      | Some (Inl e) \<Rightarrow> Some (Inl e)
      | Some (Inr st') \<Rightarrow> runItems (Suc n) items dryRun rest st')"
| "runItems (Suc n) items dryRun (MkFunClsItem dt cls # rest) st =
     (if capacity (tables st dt) > 1 \<and> \<not> available (tables st dt) 1 then
        (case finalize n items dryRun cls st of
           None \<Rightarrow> None
         | Some (Inl e) \<Rightarrow> Some (Inl e)
         | Some (Inr (f, st')) \<Rightarrow>
             runItems (Suc n) items dryRun rest
               (if \<not> dryRun
                then st'\<lparr> tables := (tables st')(dt := put (tables st' dt) 1 f) \<rparr>
                else st'))
      else runItems (Suc n) items dryRun rest st)"

subsection \<open>The CSSA transformation: \<^verbatim>\<open>toCSSA\<close>\<close>












subsection \<open>The stack pre-colouring in the words of its description\<close>

text \<open>
  Every incoming pair of the phi \<open>p\<close> has a predecessor that reaches \<open>bb\<close> by its
  \<open>next0\<close> edge and a value that is the \<open>j\<close>-th instruction from the end of that
  predecessor.
\<close>

definition phiInputsOnTop :: "Code \<Rightarrow> bbid \<Rightarrow> nat \<Rightarrow> val \<Rightarrow> bool" where
  "phiInputsOnTop c bb j p =
     list_all (\<lambda>(inb, v). next0 (bbs c inb) = Some bb \<and>
                 j \<le> length (instrs (bbs c inb)) \<and>
                 instrs (bbs c inb) ! (length (instrs (bbs c inb)) - j) = v)
              (phiArgs c p)"

text \<open>
  The instructions at the indices \<open>0, \<dots>, k\<close> of the list are all phis with their inputs
  on top of the predecessors, the one at index \<open>j\<close> at position \<open>pos + j\<close>: the sweep
  gets past index \<open>k\<close>.
\<close>

definition sweepPasses :: "Code \<Rightarrow> bbid \<Rightarrow> nat \<Rightarrow> val list \<Rightarrow> nat \<Rightarrow> bool" where
  "sweepPasses c bb pos is k =
     (\<forall>j \<le> k. isPhi c (is ! j) \<and> phiInputsOnTop c bb (pos + j) (is ! j))"

text \<open>The phis the sweep gets past, and their incoming values.\<close>

definition stackColoured :: "Code \<Rightarrow> bbid \<Rightarrow> nat \<Rightarrow> val list \<Rightarrow> val set" where
  "stackColoured c bb pos is =
     {v. \<exists>k < length is. sweepPasses c bb pos is k \<and>
            (v = is ! k \<or> v \<in> snd ` set (phiArgs c (is ! k)))}"

text \<open>
  Scanning a deque from the top downward for a sequence of values: both lists are given
  top first (the deque reversed, the arguments in reverse order). The result is what is
  left below the last value found, or \<open>None\<close> when a value is not found.
\<close>

fun findArgs :: "val list \<Rightarrow> Stack \<Rightarrow> Stack option" where
  "findArgs [] s = Some s"
| "findArgs (a # as) s =
     (case dropWhile (\<lambda>x. x \<noteq> a) s of [] \<Rightarrow> None | _ # below \<Rightarrow> findArgs as below)"

subsection \<open>Notions used to state the properties of the verifier\<close>

text \<open>The slot read by \<^verbatim>\<open>allocation[v]\<close>: 0 for a value without an entry.\<close>

definition allocOf :: "Allocation \<Rightarrow> val \<Rightarrow> SlotNumber" where
  "allocOf al v = (case al v of None \<Rightarrow> 0 | Some s \<Rightarrow> s)"

text \<open>The edges of the control flow graph, and the blocks reachable from the entry.\<close>

definition succs :: "Code \<Rightarrow> bbid \<Rightarrow> bbid set" where
  "succs c bb = set_option (next0 (bbs c bb)) \<union> set_option (next1 (bbs c bb))"

definition edges :: "Code \<Rightarrow> Jmp set" where
  "edges c = {(a, b). b \<in> succs c a}"

definition reachable :: "Code \<Rightarrow> bbid \<Rightarrow> bool" where
  "reachable c bb = ((entry c, bb) \<in> (edges c)\<^sup>*)"

text \<open>The phi \<open>p\<close> and each of its incoming instructions have one allocation.\<close>

definition phiCoalesced :: "Code \<Rightarrow> Allocation \<Rightarrow> val \<Rightarrow> bool" where
  "phiCoalesced c al p =
     list_all (\<lambda>v. isInstruction c v \<longrightarrow> allocOf al v = allocOf al p) (map snd (phiArgs c p))"

definition blockCoalesced :: "Code \<Rightarrow> Allocation \<Rightarrow> bbid \<Rightarrow> bool" where
  "blockCoalesced c al bb =
     list_all (\<lambda>p. isPhi c p \<longrightarrow> phiCoalesced c al p) (instrs (bbs c bb))"

text \<open>All blocks and their successors have ids below \<^verbatim>\<open>nextBBId\<close>.\<close>

definition closedCFG :: "Code \<Rightarrow> bool" where
  "closedCFG c =
     (entry c < nextBBId c \<and>
      list_all (\<lambda>a. list_all (\<lambda>b. b < nextBBId c)
                       (case next0 (bbs c a) of None \<Rightarrow> [] | Some b \<Rightarrow> [b]) \<and>
                     list_all (\<lambda>b. b < nextBBId c)
                       (case next1 (bbs c a) of None \<Rightarrow> [] | Some b \<Rightarrow> [b]))
               [0 ..< nextBBId c])"

subsection \<open>Notions used to state the properties of the allocator\<close>

text \<open>Both values have liveness intervals, and \<^verbatim>\<open>interfere\<close> returns false on them.\<close>

definition noInterference :: "LivenessMap \<Rightarrow> val \<Rightarrow> val \<Rightarrow> bool" where
  "noInterference lv v1 v2 =
     (case lv v1 of
        None \<Rightarrow> False
      | Some l1 \<Rightarrow> (case lv v2 of None \<Rightarrow> False | Some l2 \<Rightarrow> interfere l1 l2 = Inr False))"

text \<open>Both values belong to one phi of the list with its incoming values.\<close>

definition coalescedTogether :: "Code \<Rightarrow> val list \<Rightarrow> val \<Rightarrow> val \<Rightarrow> bool" where
  "coalescedTogether c ps v1 v2 =
     list_ex (\<lambda>p. isPhi c p \<and> v1 \<in> set (p # map snd (phiArgs c p)) \<and>
                             v2 \<in> set (p # map snd (phiArgs c p))) ps"

text \<open>The slot is available for the phi and for every incoming value of it.\<close>

definition availableForPhi ::
  "LivenessMap \<Rightarrow> ReverseAlloc \<Rightarrow> SlotNumber \<Rightarrow> val \<Rightarrow> val list \<Rightarrow> bool" where
  "availableForPhi lv ra slot p vs =
     (slotIsAvailable lv ra slot p = Inr True \<and>
      list_all (\<lambda>v. slotIsAvailable lv ra slot v = Inr True) vs)"

text \<open>What a passing call of \<open>verifyBB\<close> has checked.\<close>

definition explored :: "Code \<Rightarrow> Allocation \<Rightarrow> Jmp set \<Rightarrow> bbid \<Rightarrow> bool" where
  "explored c al taken b = (blockCoalesced c al b \<and> (\<forall>b' \<in> succs c b. (b, b') \<in> taken))"

text \<open>The edges that leave a block of the code.\<close>

definition ownEdges :: "Code \<Rightarrow> Jmp set" where
  "ownEdges c = {(a, b). a < nextBBId c \<and> b \<in> succs c a}"

text \<open>The invariant of the allocator: values that share a slot do not interfere, unless
  they were placed together with one phi.\<close>

definition slotsSafe :: "LivenessMap \<Rightarrow> Code \<Rightarrow> val list \<Rightarrow> ReverseAlloc \<Rightarrow> bool" where
  "slotsSafe lv c ps ra =
     (\<forall>slot v1 v2. v1 \<in> set (slotValues ra slot) \<and> v2 \<in> set (slotValues ra slot) \<and> v1 \<noteq> v2 \<longrightarrow>
        noInterference lv v1 v2 \<or> coalescedTogether c ps v1 v2)"

text \<open>An allocation that differs from the first one stands in the reverse map.\<close>

definition allocTracked :: "Allocation \<Rightarrow> Allocation \<Rightarrow> ReverseAlloc \<Rightarrow> bool" where
  "allocTracked al0 al ra =
     (\<forall>v slot. al v = Some slot \<longrightarrow> al0 v = Some slot \<or> v \<in> set (slotValues ra slot))"

subsection \<open>Notions used to state that a phi and its incoming values share a slot\<close>

text \<open>
  Every incoming value of a phi of the list is not a phi itself and is an incoming value
  of no other phi of the list.
\<close>

definition inputsOwned :: "Code \<Rightarrow> val list \<Rightarrow> bool" where
  "inputsOwned c ps =
     list_all (\<lambda>p. isPhi c p \<longrightarrow>
        list_all (\<lambda>v. \<not> isPhi c v \<and>
                     list_all (\<lambda>q. isPhi c q \<and> v \<in> set (map snd (phiArgs c q)) \<longrightarrow> q = p) ps)
                 (map snd (phiArgs c p))) ps"

text \<open>The phi has a slot, numbered or the stack, and each incoming value has that slot.\<close>

definition groupCoalesced :: "Code \<Rightarrow> Allocation \<Rightarrow> val \<Rightarrow> bool" where
  "groupCoalesced c al p =
     (case al p of
        None \<Rightarrow> False
      | Some s \<Rightarrow> s \<noteq> unassignedSlot \<and> list_all (\<lambda>v. al v = Some s) (map snd (phiArgs c p)))"

text \<open>Both values have liveness intervals, and \<open>interfere\<close> says that they overlap.\<close>

definition interferes :: "LivenessMap \<Rightarrow> val \<Rightarrow> val \<Rightarrow> bool" where
  "interferes lv v1 v2 =
     (case lv v1 of
        None \<Rightarrow> False
      | Some l1 \<Rightarrow> (case lv v2 of None \<Rightarrow> False | Some l2 \<Rightarrow> interfere l1 l2 = Inr True))"

text \<open>No value placed in the slot interferes with the value \<open>v\<close>.\<close>

definition slotFreeFor :: "LivenessMap \<Rightarrow> ReverseAlloc \<Rightarrow> SlotNumber \<Rightarrow> val \<Rightarrow> bool" where
  "slotFreeFor lv ra slot v = list_all (\<lambda>other. noInterference lv other v) (slotValues ra slot)"

text \<open>
  What holds of the allocation while the stack pre-colouring runs: the stack is the only
  slot given, and a phi that has it is a phi of the list whose incoming values have it.
\<close>

definition stackInv :: "Code \<Rightarrow> val list \<Rightarrow> Allocation \<Rightarrow> bool" where
  "stackInv c ps al =
     ((\<forall>v s. al v = Some s \<longrightarrow> s = stackSlot) \<and>
      (\<forall>p. isPhi c p \<and> al p \<noteq> None \<longrightarrow>
           p \<in> set ps \<and> (\<forall>v \<in> set (map snd (phiArgs c p)). al v \<noteq> None)))"

text \<open>Every phi of the list that has a slot shares it with its incoming values.\<close>

definition phiInv :: "Code \<Rightarrow> val list \<Rightarrow> Allocation \<Rightarrow> bool" where
  "phiInv c ps al = (\<forall>p \<in> set ps. isPhi c p \<and> al p \<noteq> None \<longrightarrow> groupCoalesced c al p)"

subsection \<open>Notions used to state the properties of the liveness analysis\<close>

text \<open>
  The values accumulated as phi inputs for the input blocks that are \<open>pre\<close> itself or
  predecessors of \<open>pre\<close>.
\<close>

definition phiInputsFor :: "CFG \<Rightarrow> (bbid \<times> ValSet) list \<Rightarrow> bbid \<Rightarrow> val set" where
  "phiInputsFor cfg accPhi pre =
     \<Union> (set ` snd ` {a \<in> set accPhi. pre = fst a \<or> isPredecessor cfg (fst a) pre})"

text \<open>What a merge step does to the live-out sets and to the worklist.\<close>

definition mergedInto ::
  "bbid \<Rightarrow> val set \<Rightarrow> MergeState \<Rightarrow> MergeState \<Rightarrow> bool" where
  "mergedInto bb new s s' =
     (set (liveOutOf (fst s') bb) = set (liveOutOf (fst s) bb) \<union> new \<and>
      (\<forall>b. b \<noteq> bb \<longrightarrow> fst s' b = fst s b) \<and>
      set (snd s) \<subseteq> set (snd s') \<and>
      (set (liveOutOf (fst s') bb) \<noteq> set (liveOutOf (fst s) bb) \<longrightarrow> bb \<in> set (snd s')))"

subsection \<open>Notions used to state the properties of the CSSA transformation\<close>








section \<open>Example programs\<close>

definition noValue :: Instruction where
  "noValue = \<lparr> tag = Nil, args = [], input = [], voyd = False, hasEnv = False, envSlot = 0 \<rparr>"

definition mkInstr :: "Tag \<Rightarrow> val list \<Rightarrow> Instruction" where
  "mkInstr t as = \<lparr> tag = t, args = as, input = [], voyd = False, hasEnv = False, envSlot = 0 \<rparr>"

definition mkVoid :: "Tag \<Rightarrow> val list \<Rightarrow> Instruction" where
  "mkVoid t as = \<lparr> tag = t, args = as, input = [], voyd = True, hasEnv = False, envSlot = 0 \<rparr>"

definition mkPhi :: "(bbid \<times> val) list \<Rightarrow> Instruction" where
  "mkPhi ps = \<lparr> tag = Phi, args = map snd ps, input = map fst ps, voyd = False,
               hasEnv = False, envSlot = 0 \<rparr>"

definition emptyBB :: BB where
  "emptyBB = \<lparr> instrs = [], next0 = None, next1 = None \<rparr>"

text \<open>
  Straight-line arithmetic: \<^verbatim>\<open>t1 := LdArg 0; t2 := LdArg 1; t3 := Add t1 t2; Return t3\<close>
  in one block; the values are at the addresses 1 to 4.
\<close>

definition exStraight :: Code where
  "exStraight =
     \<lparr> entry = 0, nextBBId = 1,
       bbs = (\<lambda>_. emptyBB)(0 := \<lparr> instrs = [11, 12, 13, 14], next0 = None, next1 = None \<rparr>),
       vals = (\<lambda>_. noValue)
         (11 := mkInstr LdArg [], 12 := mkInstr LdArg [], 13 := mkInstr Add [11, 12],
          14 := mkVoid Return [13]) \<rparr>"

text \<open>
  A diamond in CSSA form. Block 0 branches to the blocks 1 and 2, which both jump to
  block 3 (the values are at the addresses 11 to 19): \<^verbatim>\<open>BB0: c := LdArg; Branch c\<close>, \<^verbatim>\<open>BB1: x := LdConst; cx := Copy x\<close>,
  \<^verbatim>\<open>BB2: y := LdConst; cy := Copy y\<close>,
  \<^verbatim>\<open>BB3: p := Phi(BB1:cx, BB2:cy); p' := Copy p; Return p'\<close>.
\<close>

definition exDiamond :: Code where
  "exDiamond =
     \<lparr> entry = 0, nextBBId = 4,
       bbs = (\<lambda>_. emptyBB)
         (0 := \<lparr> instrs = [11, 12], next0 = Some 1, next1 = Some 2 \<rparr>,
          1 := \<lparr> instrs = [13, 14], next0 = Some 3, next1 = None \<rparr>,
          2 := \<lparr> instrs = [15, 16], next0 = Some 3, next1 = None \<rparr>,
          3 := \<lparr> instrs = [17, 18, 19], next0 = None, next1 = None \<rparr>),
       vals = (\<lambda>_. noValue)
         (11 := mkInstr LdArg [], 12 := mkVoid Branch [11],
          13 := mkInstr LdConst [], 14 := mkInstr PirCopy [13],
          15 := mkInstr LdConst [], 16 := mkInstr PirCopy [15],
          17 := mkPhi [(1, 14), (2, 16)], 18 := mkInstr PirCopy [17],
          19 := mkVoid Return [18]) \<rparr>"

text \<open>
  One block \<^verbatim>\<open>t1 := LdArg 0; t2 := LdArg 1; Return t2\<close>, in which \<open>t1\<close> is never used.
\<close>

definition exLeftover :: Code where
  "exLeftover =
     \<lparr> entry = 0, nextBBId = 1,
       bbs = (\<lambda>_. emptyBB)(0 := \<lparr> instrs = [11, 12, 14], next0 = None, next1 = None \<rparr>),
       vals = (\<lambda>_. noValue)
         (11 := mkInstr LdArg [], 12 := mkInstr LdArg [], 14 := mkVoid Return [12]) \<rparr>"

text \<open>
  A loop in CSSA form, with the values at the addresses 21 to 30:
  \<^verbatim>\<open>BB0: a := LdArg; ca := Copy a\<close> jumps to \<^verbatim>\<open>BB1\<close>;
  \<^verbatim>\<open>BB1: p := Phi(BB0:ca, BB1:cb); p' := Copy p; b := Inc p'; t := AsTest b; cb := Copy b; Branch t\<close>
  goes on to \<^verbatim>\<open>BB2\<close> by \<open>next0\<close> and back to \<^verbatim>\<open>BB1\<close> by \<open>next1\<close>;
  \<^verbatim>\<open>BB2: r := LdConst; Return r\<close>.
\<close>

definition exLoop :: Code where
  "exLoop =
     \<lparr> entry = 0, nextBBId = 3,
       bbs = (\<lambda>_. emptyBB)
         (0 := \<lparr> instrs = [21, 22], next0 = Some 1, next1 = None \<rparr>,
          1 := \<lparr> instrs = [23, 24, 25, 26, 27, 28], next0 = Some 2, next1 = Some 1 \<rparr>,
          2 := \<lparr> instrs = [29, 30], next0 = None, next1 = None \<rparr>),
       vals = (\<lambda>_. noValue)
         (21 := mkInstr LdArg [], 22 := mkInstr PirCopy [21],
          23 := mkPhi [(0, 22), (1, 27)], 24 := mkInstr PirCopy [23],
          25 := mkInstr Inc [24], 26 := mkInstr AsTest [25],
          27 := mkInstr PirCopy [25], 28 := mkVoid Branch [26],
          29 := mkInstr LdConst [], 30 := mkVoid Return [29]) \<rparr>"

text \<open>The control flow graph of the loop: block 2 is the exit, block 1 has the
  predecessors 0 and 1, and the blocks 0 and 1 are (transitive) predecessors of 1 and 2.\<close>

definition exLoopCFG :: CFG where
  "exLoopCFG =
     \<lparr> exits = [2],
       immediatePredecessors = (\<lambda>_. [])(1 := [0, 1], 2 := [1]),
       isPredecessor = (\<lambda>a b. (a = 0 \<or> a = 1) \<and> (b = 1 \<or> b = 2)) \<rparr>"

text \<open>
  The results of the three passes on the loop: the stack pre-colouring, the liveness
  intervals (five turns of the worklist loop are enough) and the allocation. The blocks
  are visited in the order 0, 1, 2, which is also the preorder of the dominator tree.
\<close>

definition exLoopStackAlloc :: Allocation where
  "exLoopStackAlloc = computeStackAllocation exLoop [0, 1, 2] Map.empty"

definition exLoopLiveness :: LivenessMap where
  "exLoopLiveness =
     (case computeLiveness 5 exLoop exLoopCFG of Some (Inr lv) \<Rightarrow> lv | _ \<Rightarrow> Map.empty)"

definition exLoopAllocation :: "Allocation \<times> ReverseAlloc" where
  "exLoopAllocation =
     (case computeAllocation exLoopLiveness exLoop [0, 1, 2] [0, 1, 2] exLoopStackAlloc of
        Inr r \<Rightarrow> r | Inl e \<Rightarrow> (Map.empty, []))"

text \<open>
  The allocation of the loop with the input \<open>cb\<close> of the phi moved to the slot 2: the phi
  and \<open>cb\<close> differ, everything else is as the allocator has it.
\<close>

definition exLoopBadAllocation :: Allocation where
  "exLoopBadAllocation = (fst exLoopAllocation)(27 \<mapsto> 2)"

text \<open>
  A state of the phi pre-colouring of the loop in which the slot 1 is taken by \<open>b\<close>, whose
  interval overlaps the intervals of both inputs of the phi.
\<close>

definition exLoopTaken :: "Allocation \<times> ReverseAlloc" where
  "exLoopTaken = (exLoopStackAlloc(25 \<mapsto> 1), [(1, [25])])"

text \<open>
  Two instructions with an environment operand, the static environment at the address 40:
  a store \<^verbatim>\<open>StVar(env, x)\<close> that has the environment as its first of two arguments, and
  a load \<^verbatim>\<open>LdVar(env)\<close> that has it as its only argument.
\<close>

definition exEnv :: Code where
  "exEnv =
     \<lparr> entry = 0, nextBBId = 1,
       bbs = (\<lambda>_. emptyBB)(0 := \<lparr> instrs = [41, 42, 43], next0 = None, next1 = None \<rparr>),
       vals = (\<lambda>_. noValue)
         (40 := \<lparr> tag = Env, args = [], input = [], voyd = False, hasEnv = False, envSlot = 0 \<rparr>,
          41 := mkInstr LdArg [],
          42 := \<lparr> tag = StVar, args = [40, 41], input = [], voyd = True, hasEnv = True,
                  envSlot = 0 \<rparr>,
          43 := \<lparr> tag = LdVar, args = [40], input = [], voyd = False, hasEnv = True,
                  envSlot = 0 \<rparr>) \<rparr>"

definition exSentinels :: Sentinels where
  "exSentinels = \<lparr> isStaticEnv = (\<lambda>v. v = 40), notClosed = 38, missingInstance = 39 \<rparr>"

text \<open>
  Three closures: the lowering of closure 1 meets a static call of closure 2 (with the
  dispatch table 20) and a \<^verbatim>\<open>MkFunCls\<close> of closure 3 (table 30); closure 2 calls
  closure 1 (table 10) back. Each table has the capacity 2 and a baseline function.
\<close>

definition exItems :: "clsid \<Rightarrow> Item list" where
  "exItems = (\<lambda>_. [])(1 := [StaticCallItem 2 20, MkFunClsItem 30 3], 2 := [StaticCallItem 1 10])"

definition exBaseline :: "clsid \<Rightarrow> Function" where
  "exBaseline cls = \<lparr> ofClosure = cls, invocationCount = 7, envLeaked = False,
                        envChanged = False, signature = 0 \<rparr>"

definition exTables :: "tableid \<Rightarrow> DispatchTable" where
  "exTables = (\<lambda>_. \<lparr> capacity = 2, slots = Map.empty \<rparr>)
     (10 := \<lparr> capacity = 2, slots = [0 \<mapsto> exBaseline 1] \<rparr>,
      20 := \<lparr> capacity = 2, slots = [0 \<mapsto> exBaseline 2] \<rparr>,
      30 := \<lparr> capacity = 2, slots = [0 \<mapsto> exBaseline 3] \<rparr>)"

definition exCompilerState :: CompilerState where
  "exCompilerState = \<lparr> done_set = {}, tables = exTables, produced = 0 \<rparr>"



section \<open>Properties\<close>

subsection \<open>Interference: the loop and its characterisation\<close>

lemma interfereLoop_iff:
  "length ms = length ts \<Longrightarrow>
   interfereLoop ms ts = (\<exists>i < length ms. overlapAt (ms ! i) (ts ! i))"
proof (induction ms ts rule: list_induct2)
  case Nil
  then show ?case by simp
next
  case (Cons m ms t ts)
  show ?case
  proof (cases "overlapAt m t")
    case True
    then have "\<exists>i < length (m # ms). overlapAt ((m # ms) ! i) ((t # ts) ! i)"
      by (intro exI[of _ 0]) simp
    with True show ?thesis by simp
  next
    case False
    have "(\<exists>i < length (m # ms). overlapAt ((m # ms) ! i) ((t # ts) ! i)) =
          (\<exists>i < length ms. overlapAt (ms ! i) (ts ! i))"
      using False by (auto simp: less_Suc_eq_0_disj)
    with False Cons.IH show ?thesis by simp
  qed
qed

lemma overlapAt_sym: "overlapAt a b = overlapAt b a"
  by (auto simp: overlapAt_def)

lemma interfereLoop_sym:
  "length ms = length ts \<Longrightarrow> interfereLoop ms ts = interfereLoop ts ms"
  by (simp add: interfereLoop_iff overlapAt_sym)

text \<open>
  Claim C5. Two values interfere if and only if there is a basic block in which both are
  marked live and either their begin positions are equal, or the interval of the one that
  begins earlier reaches the begin position of the other (its end is at or past it).
\<close>

theorem interfere_iff_overlap:
  assumes "length mine = length other"
  shows "interfere mine other =
     Inr (\<exists>i < length mine.
            live (mine ! i) \<and> live (other ! i) \<and>
            (lbegin (mine ! i) = lbegin (other ! i) \<or>
             (lbegin (mine ! i) < lbegin (other ! i) \<and> lbegin (other ! i) \<le> lend (mine ! i)) \<or>
             (lbegin (other ! i) < lbegin (mine ! i) \<and> lbegin (mine ! i) \<le> lend (other ! i))))"
  using assms by (simp add: interfere_def interfereLoop_iff overlapAt_def)

theorem interfere_iff_overlap_witness:
  "interfere
     [\<lparr> live = True, lbegin = 0, lend = 3 \<rparr>, \<lparr> live = False, lbegin = - 1, lend = - 1 \<rparr>]
     [\<lparr> live = True, lbegin = 3, lend = 5 \<rparr>, \<lparr> live = True, lbegin = 0, lend = 2 \<rparr>]
   = Inr True"
proof -
  let ?m = "[\<lparr> live = True, lbegin = 0, lend = 3 \<rparr>, \<lparr> live = False, lbegin = - 1, lend = - 1 \<rparr>]"
  let ?t = "[\<lparr> live = True, lbegin = 3, lend = 5 \<rparr>, \<lparr> live = True, lbegin = 0, lend = 2 \<rparr>]"
  have len: "length ?m = length ?t" by simp
  have "\<exists>i < length ?m.
            live (?m ! i) \<and> live (?t ! i) \<and>
            (lbegin (?m ! i) = lbegin (?t ! i) \<or>
             (lbegin (?m ! i) < lbegin (?t ! i) \<and> lbegin (?t ! i) \<le> lend (?m ! i)) \<or>
             (lbegin (?t ! i) < lbegin (?m ! i) \<and> lbegin (?m ! i) \<le> lend (?t ! i)))"
    by (intro exI[of _ 0]) simp
  with interfere_iff_overlap [OF len] show ?thesis by simp
qed

subsection \<open>The phi-at-entry sweep\<close>

lemma assignAll_apply:
  "assignAll vs s al = (\<lambda>v. if v \<in> set vs then Some s else al v)"
  by (induction vs arbitrary: al) (auto simp: fun_eq_iff)

lemma argsInRightOrderLoop_iff:
  "argsInRightOrderLoop c bb pos as ok = (ok \<and> list_all (\<lambda>a. \<not> argMisplaced c bb pos a) as)"
  by (induction as arbitrary: ok) auto

lemma argsInRightOrder_iff:
  "argsInRightOrder c bb pos p = phiInputsOnTop c bb pos p"
  unfolding argsInRightOrder_def argsInRightOrderLoop_iff phiInputsOnTop_def
  by (auto simp: list_all_iff argMisplaced_def split: prod.splits)

lemma sweepPasses_Cons_0:
  "sweepPasses c bb pos (i # is) 0 = (isPhi c i \<and> phiInputsOnTop c bb pos i)"
  by (simp add: sweepPasses_def)

lemma sweepPasses_Cons_Suc:
  "sweepPasses c bb pos (i # is) (Suc k) =
     (isPhi c i \<and> phiInputsOnTop c bb pos i \<and> sweepPasses c bb (Suc pos) is k)"
proof
  assume a: "sweepPasses c bb pos (i # is) (Suc k)"
  have "isPhi c i \<and> phiInputsOnTop c bb pos i"
    using a[unfolded sweepPasses_def, rule_format, of 0] by simp
  moreover have "isPhi c (is ! j) \<and> phiInputsOnTop c bb (Suc pos + j) (is ! j)" if "j \<le> k" for j
    using a[unfolded sweepPasses_def, rule_format, of "Suc j"] that by simp
  ultimately show "isPhi c i \<and> phiInputsOnTop c bb pos i \<and> sweepPasses c bb (Suc pos) is k"
    by (simp add: sweepPasses_def)
next
  assume a: "isPhi c i \<and> phiInputsOnTop c bb pos i \<and> sweepPasses c bb (Suc pos) is k"
  show "sweepPasses c bb pos (i # is) (Suc k)"
    unfolding sweepPasses_def
  proof (intro allI impI)
    fix j assume "j \<le> Suc k"
    show "isPhi c ((i # is) ! j) \<and> phiInputsOnTop c bb (pos + j) ((i # is) ! j)"
    proof (cases j)
      case 0
      with a show ?thesis by simp
    next
      case (Suc j')
      with \<open>j \<le> Suc k\<close> have "j' \<le> k" by simp
      with a have "isPhi c (is ! j') \<and> phiInputsOnTop c bb (Suc pos + j') (is ! j')"
        by (simp add: sweepPasses_def)
      with Suc show ?thesis by simp
    qed
  qed
qed

lemma sweepPasses_first: "sweepPasses c bb pos is k \<Longrightarrow> sweepPasses c bb pos is 0"
  unfolding sweepPasses_def by (intro allI impI, drule spec[of _ 0]) simp

lemma stackColoured_Nil: "stackColoured c bb pos [] = {}"
  by (simp add: stackColoured_def)

lemma stackColoured_Cons_stop:
  "\<not> (isPhi c i \<and> phiInputsOnTop c bb pos i) \<Longrightarrow> stackColoured c bb pos (i # is) = {}"
  unfolding stackColoured_def using sweepPasses_first[of c bb pos "i # is"]
  by (auto simp: sweepPasses_Cons_0)

lemma stackColoured_Cons_go:
  assumes "isPhi c i" "phiInputsOnTop c bb pos i"
  shows "stackColoured c bb pos (i # is) =
           insert i (snd ` set (phiArgs c i)) \<union> stackColoured c bb (Suc pos) is"
proof (intro set_eqI iffI)
  fix v assume "v \<in> stackColoured c bb pos (i # is)"
  then obtain k where k: "k < length (i # is)" "sweepPasses c bb pos (i # is) k"
      "v = (i # is) ! k \<or> v \<in> snd ` set (phiArgs c ((i # is) ! k))"
    unfolding stackColoured_def by blast
  show "v \<in> insert i (snd ` set (phiArgs c i)) \<union> stackColoured c bb (Suc pos) is"
  proof (cases k)
    case 0
    with k show ?thesis by auto
  next
    case (Suc k')
    with k have "k' < length is" "sweepPasses c bb (Suc pos) is k'"
      "v = is ! k' \<or> v \<in> snd ` set (phiArgs c (is ! k'))"
      by (simp_all add: sweepPasses_Cons_Suc)
    then have "v \<in> stackColoured c bb (Suc pos) is"
      unfolding stackColoured_def by blast
    then show ?thesis by simp
  qed
next
  fix v assume "v \<in> insert i (snd ` set (phiArgs c i)) \<union> stackColoured c bb (Suc pos) is"
  then consider "v = i \<or> v \<in> snd ` set (phiArgs c i)" | "v \<in> stackColoured c bb (Suc pos) is"
    by blast
  then show "v \<in> stackColoured c bb pos (i # is)"
  proof cases
    case 1
    have "0 < length (i # is)" by simp
    moreover have "sweepPasses c bb pos (i # is) 0"
      using assms by (simp add: sweepPasses_Cons_0)
    moreover have "v = (i # is) ! 0 \<or> v \<in> snd ` set (phiArgs c ((i # is) ! 0))"
      using 1 by simp
    ultimately show ?thesis unfolding stackColoured_def by blast
  next
    case 2
    then obtain k where k: "k < length is" "sweepPasses c bb (Suc pos) is k"
      "v = is ! k \<or> v \<in> snd ` set (phiArgs c (is ! k))"
      unfolding stackColoured_def by blast
    have "Suc k < length (i # is)" using k by simp
    moreover have "sweepPasses c bb pos (i # is) (Suc k)"
      using assms k by (simp add: sweepPasses_Cons_Suc)
    moreover have "v = (i # is) ! Suc k \<or> v \<in> snd ` set (phiArgs c ((i # is) ! Suc k))"
      using k by simp
    ultimately show ?thesis unfolding stackColoured_def by blast
  qed
qed

lemma phiSweep_eq:
  "phiSweep c bb pos is al =
     (\<lambda>v. if v \<in> stackColoured c bb pos is then Some stackSlot else al v)"
proof (induction "is" arbitrary: pos al)
  case Nil
  show ?case by (simp add: stackColoured_Nil)
next
  case (Cons i "is")
  show ?case
  proof (cases "isPhi c i \<and> phiInputsOnTop c bb pos i")
    case False
    then show ?thesis
      by (auto simp: stackColoured_Cons_stop argsInRightOrder_iff)
  next
    case True
    then show ?thesis
      by (auto simp: Cons.IH stackColoured_Cons_go argsInRightOrder_iff assignAll_apply fun_eq_iff)
  qed
qed

subsection \<open>Matching arguments on the deque\<close>

lemma skipMismatch_dropWhile:
  "k \<le> length stack \<Longrightarrow>
   \<exists>k'. skipMismatch stack arg k k = (k', k') \<and> k' \<le> k \<and>
        dropWhile (\<lambda>x. x \<noteq> arg) (rev (take k stack)) = rev (take k' stack)"
proof (induction k)
  case 0
  then show ?case by simp
next
  case (Suc k)
  then have k: "k < length stack" by simp
  have tk: "rev (take (Suc k) stack) = stack ! k # rev (take k stack)"
    using k by (simp add: take_Suc_conv_app_nth)
  show ?case
  proof (cases "stack ! k = arg")
    case True
    then show ?thesis using tk by auto
  next
    case False
    from Suc.IH k obtain k' where "skipMismatch stack arg k k = (k', k')" "k' \<le> k"
      "dropWhile (\<lambda>x. x \<noteq> arg) (rev (take k stack)) = rev (take k' stack)"
      by auto
    with False tk show ?thesis by auto
  qed
qed

lemma matchArg_step:
  assumes "k \<le> length stack"
  shows "\<exists>k2 \<le> k. matchArg stack (k, k, f) arg =
            (k2, k2, f \<and> dropWhile (\<lambda>x. x \<noteq> arg) (rev (take k stack)) \<noteq> []) \<and>
          (case dropWhile (\<lambda>x. x \<noteq> arg) (rev (take k stack)) of
             [] \<Rightarrow> k2 = 0 | _ # below \<Rightarrow> below = rev (take k2 stack))"
proof -
  from skipMismatch_dropWhile[OF assms, of arg] obtain k' where
    k': "skipMismatch stack arg k k = (k', k')" "k' \<le> k"
        "dropWhile (\<lambda>x. x \<noteq> arg) (rev (take k stack)) = rev (take k' stack)"
    by blast
  show ?thesis
  proof (cases k')
    case 0
    with k' have d: "dropWhile (\<lambda>x. x \<noteq> arg) (rev (take k stack)) = []" by simp
    from k' 0 show ?thesis by (simp add: matchArg_def d)
  next
    case (Suc j)
    with k' assms have j: "j < length stack" by simp
    have "rev (take k' stack) = stack ! j # rev (take j stack)"
      using j Suc by (simp add: take_Suc_conv_app_nth)
    with k' Suc show ?thesis by (simp add: matchArg_def)
  qed
qed

lemma foldl_matchArg_findArgs:
  "k \<le> length stack \<Longrightarrow>
   \<exists>k2 \<le> k. foldl (matchArg stack) (k, k, f) as =
            (k2, k2, f \<and> findArgs as (rev (take k stack)) \<noteq> None) \<and>
          (\<forall>r. findArgs as (rev (take k stack)) = Some r \<longrightarrow> r = rev (take k2 stack))"
proof (induction as arbitrary: k f)
  case Nil
  then show ?case by simp
next
  case (Cons a as)
  let ?d = "dropWhile (\<lambda>x. x \<noteq> a) (rev (take k stack))"
  from matchArg_step[OF Cons.prems, of f a] obtain k1 where
    k1: "k1 \<le> k" "matchArg stack (k, k, f) a = (k1, k1, f \<and> ?d \<noteq> [])"
        "(case ?d of [] \<Rightarrow> k1 = 0 | _ # below \<Rightarrow> below = rev (take k1 stack))"
    by blast
  have k1len: "k1 \<le> length stack" using k1 Cons.prems by simp
  from Cons.IH[OF k1len, of "f \<and> ?d \<noteq> []"] obtain k2 where
    k2: "k2 \<le> k1"
        "foldl (matchArg stack) (k1, k1, f \<and> ?d \<noteq> []) as =
           (k2, k2, (f \<and> ?d \<noteq> []) \<and> findArgs as (rev (take k1 stack)) \<noteq> None)"
        "\<forall>r. findArgs as (rev (take k1 stack)) = Some r \<longrightarrow> r = rev (take k2 stack)"
    by blast
  show ?case
  proof (cases ?d)
    case Nil
    from k1(3) have "k1 = 0" by (simp add: Nil)
    with k1 k2 show ?thesis by (intro exI[of _ k2]) (simp add: Nil)
  next
    case (Cons x below)
    from k1(3) have "below = rev (take k1 stack)" by (simp add: Cons)
    with k1 k2 show ?thesis by (intro exI[of _ k2]) (simp add: Cons)
  qed
qed

lemma matchArgs_findArgs:
  "\<exists>n \<le> length stack. matchArgs stack as = (n, n, findArgs (rev as) (rev stack) \<noteq> None) \<and>
       (\<forall>r. findArgs (rev as) (rev stack) = Some r \<longrightarrow> r = rev (take n stack))"
  using foldl_matchArg_findArgs[of "length stack" stack True "rev as"]
  by (simp add: matchArgs_def)

lemma findArgs_length:
  "findArgs as s = Some r \<Longrightarrow> length r + length as \<le> length s"
proof (induction as arbitrary: s)
  case Nil
  then show ?case by simp
next
  case (Cons a as)
  then obtain x below where d: "dropWhile (\<lambda>x. x \<noteq> a) s = x # below" "findArgs as below = Some r"
    by (auto split: list.splits)
  have "length (dropWhile (\<lambda>x. x \<noteq> a) s) \<le> length s" by (rule length_dropWhile_le)
  with d Cons.IH[OF d(2)] show ?case by simp
qed

text \<open>What a successful scan says about the deque, top first: the entries scanned are
  the reversed arguments with unmatched entries in between.\<close>

lemma findArgs_decompose:
  "findArgs as s = Some r \<Longrightarrow> \<exists>scanned. s = scanned @ r \<and> subseq as scanned \<and>
      (as = [] \<longrightarrow> scanned = []) \<and>
      (as \<noteq> [] \<longrightarrow> scanned \<noteq> [] \<and> last scanned = last as)"
proof (induction as arbitrary: s)
  case Nil
  then show ?case by simp
next
  case (Cons a as)
  then obtain x below where d: "dropWhile (\<lambda>x. x \<noteq> a) s = x # below" "findArgs as below = Some r"
    by (auto split: list.splits)
  have xa: "x = a" using d(1) hd_dropWhile[of "\<lambda>x. x \<noteq> a" s] by (metis list.distinct(1) list.sel(1))
  from Cons.IH[OF d(2)] obtain sc where sc: "below = sc @ r" "subseq as sc"
     "as = [] \<longrightarrow> sc = []"
     "as \<noteq> [] \<longrightarrow> sc \<noteq> [] \<and> last sc = last as" by blast
  have s: "s = takeWhile (\<lambda>x. x \<noteq> a) s @ a # sc @ r"
    using d(1) sc(1) xa takeWhile_dropWhile_id[of "\<lambda>x. x \<noteq> a" s] by simp
  let ?scanned = "takeWhile (\<lambda>x. x \<noteq> a) s @ a # sc"
  have "s = ?scanned @ r" using s by simp
  moreover have "subseq (a # as) ?scanned"
    using sc(2) by (simp add: list_emb_append2)
  moreover have "?scanned \<noteq> [] \<and> last ?scanned = last (a # as)"
    using sc(3,4) by auto
  ultimately show ?case by blast
qed

lemma tryLoading_found:
  assumes "args (vals c i) \<noteq> []"
      and "findArgs (rev (args (vals c i))) (rev stack) = Some below"
  shows "tryLoadingArgsFromStack c i (stack, al) =
           (rev below, \<lambda>v. if v \<in> set (args (vals c i)) then Some stackSlot else al v)"
proof -
  let ?as = "args (vals c i)"
  from matchArgs_findArgs[of stack ?as] assms(2) obtain n where
    n: "n \<le> length stack" "matchArgs stack ?as = (n, n, True)" "below = rev (take n stack)"
    by auto
  from findArgs_length[OF assms(2)] have "length ?as \<le> length stack" by simp
  with assms(1) n show ?thesis
    by (simp add: tryLoadingArgsFromStack_def resize_def assignAll_apply Let_def)
qed

lemma tryLoading_not_found:
  assumes "findArgs (rev (args (vals c i))) (rev stack) = None"
  shows "tryLoadingArgsFromStack c i (stack, al) = (stack, al)"
proof -
  from matchArgs_findArgs[of stack "args (vals c i)"] assms obtain n where
    "matchArgs stack (args (vals c i)) = (n, n, False)" by auto
  then show ?thesis by (simp add: tryLoadingArgsFromStack_def Let_def)
qed

lemma subseq_rev: "subseq xs ys \<Longrightarrow> subseq (rev xs) (rev ys)"
proof (induction rule: list_emb.induct)
  case (list_emb_Nil ys)
  then show ?case by simp
next
  case (list_emb_Cons xs ys y)
  then show ?case by (simp add: subseq_rev_drop_many)
next
  case (list_emb_Cons2 x y xs ys)
  then show ?case by (simp add: list_emb_append_mono)
qed

lemma found_deque_shape:
  assumes "as \<noteq> []" and "findArgs (rev as) (rev stack) = Some below"
  shows "\<exists>dropped. stack = rev below @ hd as # dropped \<and> subseq as (hd as # dropped)"
proof -
  from findArgs_decompose[OF assms(2)] assms(1) obtain scanned where
    sc: "rev stack = scanned @ below" "subseq (rev as) scanned" "scanned \<noteq> []"
        "last scanned = last (rev as)" by auto
  have st: "stack = rev below @ rev scanned" using sc(1) by (metis rev_append rev_rev_ident)
  have "hd (rev scanned) = hd as" using sc(3,4) assms(1) by (simp add: hd_rev last_rev)
  then obtain dropped where d: "rev scanned = hd as # dropped"
    using sc(3) by (cases "rev scanned") auto
  have "subseq as (rev scanned)" using subseq_rev[OF sc(2)] by simp
  with st d show ?thesis by auto
qed

subsection \<open>Stack pre-colouring: the two claims\<close>

text \<open>
  Claim C4. The sweep over the leading phis of a block gives the stack sentinel to a phi
  and to all its incoming values exactly when the sweep gets to that phi and past it:
  the phi and every instruction before it are phis whose incoming pairs all have a
  predecessor that reaches the block by \<open>next0\<close> and a value that is the \<open>j\<close>-th
  instruction from the end of the predecessor, \<open>j\<close> being the 1-based position of the
  phi. Nothing else is changed, so the first phi that fails the test ends the sweep.
\<close>

theorem phi_at_entry_sweep:
  "phiSweep c bb 1 (instrs (bbs c bb)) al =
     (\<lambda>v. if \<exists>k < length (instrs (bbs c bb)).
                (\<forall>j \<le> k. isPhi c (instrs (bbs c bb) ! j) \<and>
                          phiInputsOnTop c bb (1 + j) (instrs (bbs c bb) ! j)) \<and>
                (v = instrs (bbs c bb) ! k \<or>
                 v \<in> snd ` set (phiArgs c (instrs (bbs c bb) ! k)))
           then Some stackSlot else al v)"
  using phiSweep_eq[of c bb 1 "instrs (bbs c bb)" al]
  by (simp add: stackColoured_def sweepPasses_def)

lemma exDiamond_bb3: "instrs (bbs exDiamond 3) = [17, 18, 19]"
  by (simp add: exDiamond_def)

lemma exDiamond_phi: "isPhi exDiamond 17" "\<not> isPhi exDiamond 18"
  by (simp_all add: exDiamond_def isPhi_def mkPhi_def mkInstr_def)

lemma exDiamond_phiArgs: "phiArgs exDiamond 17 = [(1, 14), (2, 16)]"
  by (simp add: exDiamond_def phiArgs_def mkPhi_def)

lemma exDiamond_onTop: "phiInputsOnTop exDiamond 3 1 17"
  by (simp add: phiInputsOnTop_def exDiamond_phiArgs) (simp add: exDiamond_def)

theorem phi_at_entry_sweep_witness:
  "phiSweep exDiamond 3 1 (instrs (bbs exDiamond 3)) Map.empty 17 = Some stackSlot \<and>
   phiSweep exDiamond 3 1 (instrs (bbs exDiamond 3)) Map.empty 14 = Some stackSlot \<and>
   phiSweep exDiamond 3 1 (instrs (bbs exDiamond 3)) Map.empty 16 = Some stackSlot \<and>
   phiSweep exDiamond 3 1 (instrs (bbs exDiamond 3)) Map.empty 18 = None"
proof -
  let ?is = "instrs (bbs exDiamond 3)"
  have pass0: "\<forall>j \<le> 0. isPhi exDiamond (?is ! j) \<and> phiInputsOnTop exDiamond 3 (1 + j) (?is ! j)"
    using exDiamond_phi exDiamond_onTop by (simp add: exDiamond_bb3)
  have in7: "\<exists>k < length ?is.
      (\<forall>j \<le> k. isPhi exDiamond (?is ! j) \<and> phiInputsOnTop exDiamond 3 (1 + j) (?is ! j)) \<and>
      (v = ?is ! k \<or> v \<in> snd ` set (phiArgs exDiamond (?is ! k)))"
    if "v = 17 \<or> v = 14 \<or> v = 16" for v
    using pass0 that by (intro exI[of _ 0]) (auto simp: exDiamond_bb3 exDiamond_phiArgs)
  have no8: "\<not> (\<exists>k < length ?is.
      (\<forall>j \<le> k. isPhi exDiamond (?is ! j) \<and> phiInputsOnTop exDiamond 3 (1 + j) (?is ! j)) \<and>
      (18 = ?is ! k \<or> 18 \<in> snd ` set (phiArgs exDiamond (?is ! k))))"
  proof
    assume "\<exists>k < length ?is.
      (\<forall>j \<le> k. isPhi exDiamond (?is ! j) \<and> phiInputsOnTop exDiamond 3 (1 + j) (?is ! j)) \<and>
      (18 = ?is ! k \<or> 18 \<in> snd ` set (phiArgs exDiamond (?is ! k)))"
    then obtain k where k: "k < length ?is"
      "\<forall>j \<le> k. isPhi exDiamond (?is ! j) \<and> phiInputsOnTop exDiamond 3 (1 + j) (?is ! j)"
      "18 = ?is ! k \<or> 18 \<in> snd ` set (phiArgs exDiamond (?is ! k))" by blast
    show False
    proof (cases "k = 0")
      case True
      with k(3) show False by (simp add: exDiamond_bb3 exDiamond_phiArgs)
    next
      case False
      then have "1 \<le> k" by simp
      with k(2) have "isPhi exDiamond (?is ! 1)" by blast
      then show False using exDiamond_phi by (simp add: exDiamond_bb3)
    qed
  qed
  show ?thesis
    using phi_at_entry_sweep[of exDiamond 3 Map.empty] in7[of 17] in7[of 14] in7[of 16] no8
    by simp
qed

text \<open>
  Claim C7. An instruction is pushed on the simulated deque only if its result is not
  void, it is not a phi and it has a single use. When the scan of the deque from the top
  finds all arguments of an instruction, in reverse argument order, every argument gets
  the stack sentinel and the deque is cut below the deepest match (the first argument):
  the matched entries and the unmatched entries between them are dropped. When an
  argument is not found, nothing changes.
\<close>

theorem stack_window_push_and_match:
  "(fst (windowStep c i s) \<noteq> fst (tryLoadingArgsFromStack c i s) \<longrightarrow>
      fst (windowStep c i s) = fst (tryLoadingArgsFromStack c i s) @ [i] \<and>
      \<not> voyd (vals c i) \<and> \<not> isPhi c i \<and> hasSingleUse c i) \<and>
   (args (vals c i) \<noteq> [] \<and> findArgs (rev (args (vals c i))) (rev stack) = Some below \<longrightarrow>
      tryLoadingArgsFromStack c i (stack, al) =
        (rev below, \<lambda>v. if v \<in> set (args (vals c i)) then Some stackSlot else al v) \<and>
      (\<exists>dropped. stack = rev below @ hd (args (vals c i)) # dropped \<and>
                  subseq (args (vals c i)) (hd (args (vals c i)) # dropped))) \<and>
   (findArgs (rev (args (vals c i))) (rev stack) = None \<longrightarrow>
      tryLoadingArgsFromStack c i (stack, al) = (stack, al))"
proof (intro conjI impI)
  assume "fst (windowStep c i s) \<noteq> fst (tryLoadingArgsFromStack c i s)"
  then have p: "pushable c (snd (tryLoadingArgsFromStack c i s)) i"
    by (auto simp: windowStep_def split: prod.splits if_splits)
  then show "fst (windowStep c i s) = fst (tryLoadingArgsFromStack c i s) @ [i]"
    by (auto simp: windowStep_def split: prod.splits)
  from p show "\<not> voyd (vals c i)" "\<not> isPhi c i" "hasSingleUse c i"
    by (simp_all add: pushable_def)
next
  assume a: "args (vals c i) \<noteq> [] \<and> findArgs (rev (args (vals c i))) (rev stack) = Some below"
  then show "tryLoadingArgsFromStack c i (stack, al) =
        (rev below, \<lambda>v. if v \<in> set (args (vals c i)) then Some stackSlot else al v)"
    by (simp add: tryLoading_found)
  from a show "\<exists>dropped. stack = rev below @ hd (args (vals c i)) # dropped \<and>
                  subseq (args (vals c i)) (hd (args (vals c i)) # dropped)"
    by (simp add: found_deque_shape)
next
  assume "findArgs (rev (args (vals c i))) (rev stack) = None"
  then show "tryLoadingArgsFromStack c i (stack, al) = (stack, al)"
    by (rule tryLoading_not_found)
qed

lemma exStraight_args: "args (vals exStraight 13) = [11, 12]" "args (vals exStraight 11) = []"
  by (simp_all add: exStraight_def mkInstr_def)

lemma exStraight_uses: "allUses exStraight = [11, 12, 13]"
  by (simp add: allUses_def exStraight_def mkInstr_def mkVoid_def)

lemma exStraight_push1: "windowStep exStraight 11 ([], Map.empty) = ([11], Map.empty)"
  by (simp add: windowStep_def tryLoadingArgsFromStack_def exStraight_args pushable_def
      hasSingleUse_def exStraight_uses isPhi_def)
     (simp add: exStraight_def mkInstr_def)

theorem stack_window_push_and_match_witness:
  "fst (windowStep exStraight 11 ([], Map.empty)) = [11] \<and>
   hasSingleUse exStraight 11 \<and>
   tryLoadingArgsFromStack exStraight 13 ([9, 11, 5, 12], Map.empty) =
     ([9], \<lambda>v. if v \<in> set (args (vals exStraight 13)) then Some stackSlot else None) \<and>
   tryLoadingArgsFromStack exStraight 13 ([12, 11], Map.empty) = ([12, 11], Map.empty)"
proof -
  have t1: "fst (tryLoadingArgsFromStack exStraight 11 ([], Map.empty)) = []"
    by (simp add: tryLoadingArgsFromStack_def exStraight_args)
  have h1: "fst (windowStep exStraight 11 ([], Map.empty)) \<noteq>
            fst (tryLoadingArgsFromStack exStraight 11 ([], Map.empty))"
    using exStraight_push1 t1 by simp
  have h2: "args (vals exStraight 13) \<noteq> [] \<and>
            findArgs (rev (args (vals exStraight 13))) (rev [9, 11, 5, 12]) = Some [9]"
    by (simp add: exStraight_args)
  have h3: "findArgs (rev (args (vals exStraight 13))) (rev [12, 11]) = None"
    by (simp add: exStraight_args)
  from stack_window_push_and_match[of exStraight 11 "([], Map.empty)" "[9, 11, 5, 12]" "[9]" Map.empty]
    h1 t1
  have "fst (windowStep exStraight 11 ([], Map.empty)) = [11] \<and> hasSingleUse exStraight 11"
    by simp
  moreover from stack_window_push_and_match[of exStraight 13 "([], Map.empty)" "[9, 11, 5, 12]" "[9]" Map.empty]
    h2
  have "tryLoadingArgsFromStack exStraight 13 ([9, 11, 5, 12], Map.empty) =
     ([9], \<lambda>v. if v \<in> set (args (vals exStraight 13)) then Some stackSlot else None)"
    by simp
  moreover from stack_window_push_and_match[of exStraight 13 "([], Map.empty)" "[12, 11]" "[]" Map.empty]
    h3
  have "tryLoadingArgsFromStack exStraight 13 ([12, 11], Map.empty) = ([12, 11], Map.empty)"
    by simp
  ultimately show ?thesis by simp
qed

subsection \<open>The verifier at a block without successors\<close>

text \<open>
  Claim C3. When the verifier has run the instructions of a block that has neither
  \<open>next0\<close> nor \<open>next1\<close>, the symbolic stack has to be empty: if it is not, the
  verification fails there, reporting the block and the number of elements left on the
  stack; if it is, the block passes.
\<close>

theorem terminal_block_needs_empty_stack:
  assumes "next0 (bbs c bb) = None" and "next1 (bbs c bb) = None"
      and "runSteps (verifyInstr c) (instrs (bbs c bb)) (al, reg, stack) = Inr (al1, reg1, stack1)"
  shows "verifyBB (Suc n) c bb reg stack (branchTaken, al) =
           (if stack1 = [] then Some (Inr (branchTaken, al1))
            else Some (Inl (StackNotEmpty bb (length stack1))))"
  using assms by simp

lemma exLeftover_run:
  "runSteps (verifyInstr exLeftover) (instrs (bbs exLeftover 0))
     ([11 \<mapsto> stackSlot, 12 \<mapsto> stackSlot], Map.empty, []) =
   Inr ([11 \<mapsto> stackSlot, 12 \<mapsto> stackSlot], Map.empty, [11])"
  by (simp add: exLeftover_def verifyInstr_def isPhi_def isInstruction_def mkInstr_def
      mkVoid_def rememberResult_def)

lemma exStraight_run:
  "runSteps (verifyInstr exStraight) (instrs (bbs exStraight 0))
     ([11 \<mapsto> stackSlot, 12 \<mapsto> stackSlot, 13 \<mapsto> stackSlot], Map.empty, []) =
   Inr ([11 \<mapsto> stackSlot, 12 \<mapsto> stackSlot, 13 \<mapsto> stackSlot], Map.empty, [])"
  by (simp add: exStraight_def verifyInstr_def isPhi_def isInstruction_def mkInstr_def
      mkVoid_def rememberResult_def)

theorem terminal_block_needs_empty_stack_witness:
  "verifyBB (Suc 0) exLeftover 0 Map.empty [] ({}, [11 \<mapsto> stackSlot, 12 \<mapsto> stackSlot]) =
     Some (Inl (StackNotEmpty 0 1)) \<and>
   verifyBB (Suc 0) exStraight 0 Map.empty []
       ({}, [11 \<mapsto> stackSlot, 12 \<mapsto> stackSlot, 13 \<mapsto> stackSlot]) =
     Some (Inr ({}, [11 \<mapsto> stackSlot, 12 \<mapsto> stackSlot, 13 \<mapsto> stackSlot]))"
proof -
  have n1: "next0 (bbs exLeftover 0) = None" "next1 (bbs exLeftover 0) = None"
    by (simp_all add: exLeftover_def)
  have n2: "next0 (bbs exStraight 0) = None" "next1 (bbs exStraight 0) = None"
    by (simp_all add: exStraight_def)
  show ?thesis
    using terminal_block_needs_empty_stack[OF n1 exLeftover_run, of 0 "{}"]
          terminal_block_needs_empty_stack[OF n2 exStraight_run, of 0 "{}"]
    by simp
qed

subsection \<open>The verifier: what a passing run has checked, and termination\<close>

lemma allocOf_allocIndex:
  "allocIndex al v = (s, al') \<Longrightarrow> s = allocOf al v \<and> allocOf al' = allocOf al"
proof (cases "al v")
  case None
  assume "allocIndex al v = (s, al')"
  with None have "s = 0" "al' = al(v \<mapsto> 0)" by (simp_all add: allocIndex_def)
  with None show ?thesis by (auto simp: allocOf_def fun_eq_iff)
next
  case (Some x)
  assume "allocIndex al v = (s, al')"
  with Some show ?thesis by (simp add: allocIndex_def allocOf_def)
qed

lemma verifyPhiArgs_pass:
  "verifyPhiArgs c p slot vs al = Inr al' \<Longrightarrow>
     allocOf al' = allocOf al \<and>
     (\<forall>v \<in> set vs. isInstruction c v \<longrightarrow> allocOf al v = slot)"
proof (induction vs arbitrary: al)
  case Nil
  then show ?case by simp
next
  case (Cons a vs)
  show ?case
  proof (cases "isInstruction c a")
    case False
    with Cons show ?thesis by simp
  next
    case True
    obtain s al1 where ai: "allocIndex al a = (s, al1)" by (cases "allocIndex al a")
    from allocOf_allocIndex[OF ai] have s: "s = allocOf al a" "allocOf al1 = allocOf al" by auto
    from Cons.prems True ai have eq: "s = slot" and r: "verifyPhiArgs c p slot vs al1 = Inr al'"
      by (auto split: if_splits)
    from Cons.IH[OF r] s eq show ?thesis using True by auto
  qed
qed

lemma verifyPhiArgs_fail:
  "\<exists>v \<in> set vs. isInstruction c v \<and> allocOf al v \<noteq> slot \<Longrightarrow>
   \<exists>w \<in> set vs. verifyPhiArgs c p slot vs al = Inl (PhiInputAllocation p w) \<and>
        isInstruction c w \<and> allocOf al w \<noteq> slot"
proof (induction vs arbitrary: al)
  case Nil
  then show ?case by simp
next
  case (Cons a vs)
  show ?case
  proof (cases "isInstruction c a \<and> allocOf al a \<noteq> slot")
    case True
    obtain s al1 where ai: "allocIndex al a = (s, al1)" by (cases "allocIndex al a")
    from allocOf_allocIndex[OF ai] True ai show ?thesis by auto
  next
    case False
    with Cons.prems have ex: "\<exists>v \<in> set vs. isInstruction c v \<and> allocOf al v \<noteq> slot" by auto
    show ?thesis
    proof (cases "isInstruction c a")
      case False
      with Cons.IH[OF ex] show ?thesis by auto
    next
      case True
      obtain s al1 where ai: "allocIndex al a = (s, al1)" by (cases "allocIndex al a")
      from allocOf_allocIndex[OF ai] have s: "s = allocOf al a" "allocOf al1 = allocOf al" by auto
      from ex s have "\<exists>v \<in> set vs. isInstruction c v \<and> allocOf al1 v \<noteq> slot" by simp
      from Cons.IH[OF this] obtain w where "w \<in> set vs"
        "verifyPhiArgs c p slot vs al1 = Inl (PhiInputAllocation p w)"
        "isInstruction c w" "allocOf al1 w \<noteq> slot" by blast
      with True False ai s show ?thesis by auto
    qed
  qed
qed

lemma verifyInstr_pass:
  assumes "verifyInstr c i (al, reg, stack) = Inr (al', reg', stack')"
  shows "allocOf al' = allocOf al \<and> (isPhi c i \<longrightarrow> phiCoalesced c al i)"
proof (cases "isPhi c i")
  case False
  with assms show ?thesis
    by (auto simp: verifyInstr_def split: sum.splits)
next
  case True
  with assms obtain slot al1 where s: "al i = Some slot"
    and v: "verifyPhiArgs c i slot (map snd (phiArgs c i)) al = Inr al1" and a: "al' = al1"
    by (auto simp: verifyInstr_def split: option.splits sum.splits if_splits)
  from s have "allocOf al i = slot" by (simp add: allocOf_def)
  with verifyPhiArgs_pass[OF v] a True show ?thesis
    by (auto simp: phiCoalesced_def list_all_iff)
qed

lemma phiCoalesced_cong: "allocOf al' = allocOf al \<Longrightarrow> phiCoalesced c al' p = phiCoalesced c al p"
  by (simp add: phiCoalesced_def)

lemma runSteps_verifyInstr_pass:
  "runSteps (verifyInstr c) is (al, reg, stack) = Inr (al', reg', stack') \<Longrightarrow>
   allocOf al' = allocOf al \<and> (\<forall>p \<in> set is. isPhi c p \<longrightarrow> phiCoalesced c al p)"
proof (induction "is" arbitrary: al reg stack)
  case Nil
  then show ?case by simp
next
  case (Cons i "is")
  from Cons.prems obtain al1 reg1 stack1 where
    st: "verifyInstr c i (al, reg, stack) = Inr (al1, reg1, stack1)"
    and r: "runSteps (verifyInstr c) is (al1, reg1, stack1) = Inr (al', reg', stack')"
    by (auto split: sum.splits)
  from verifyInstr_pass[OF st] have a: "allocOf al1 = allocOf al" "isPhi c i \<longrightarrow> phiCoalesced c al i"
    by auto
  from Cons.IH[OF r] a show ?case by (auto simp: phiCoalesced_cong[OF a(1)])
qed

lemma blockCoalesced_cong:
  "allocOf al' = allocOf al \<Longrightarrow> blockCoalesced c al' bb = blockCoalesced c al bb"
  by (simp add: blockCoalesced_def phiCoalesced_def)

lemma explored_mono: "explored c al taken b \<Longrightarrow> taken \<subseteq> taken' \<Longrightarrow> explored c al taken' b"
  by (auto simp: explored_def)

lemma verifyBB_pass:
  "verifyBB n c bb reg stack (taken, al) = Some (Inr (taken', al')) \<Longrightarrow>
     allocOf al' = allocOf al \<and> taken \<subseteq> taken' \<and> explored c al taken' bb \<and>
     (\<forall>(a, b) \<in> taken' - taken. explored c al taken' b)"
proof (induction n arbitrary: bb reg stack taken al taken' al')
  case 0
  then show ?case by simp
next
  case (Suc n)
  from Suc.prems obtain al1 reg1 stack1 where
    run: "runSteps (verifyInstr c) (instrs (bbs c bb)) (al, reg, stack) = Inr (al1, reg1, stack1)"
    by (auto split: sum.splits)
  from runSteps_verifyInstr_pass[OF run] have al1: "allocOf al1 = allocOf al"
    and blk: "blockCoalesced c al bb"
    by (auto simp: blockCoalesced_def list_all_iff)
  define r0 where "r0 = (case next0 (bbs c bb) of
                        None \<Rightarrow> Some (Inr (taken, al1))
                      | Some b0 \<Rightarrow>
                          if (bb, b0) \<notin> taken
                          then verifyBB n c b0 reg1 stack1 (insert (bb, b0) taken, al1)
                          else Some (Inr (taken, al1)))"
  from Suc.prems run obtain taken2 al2 where r0: "r0 = Some (Inr (taken2, al2))"
    and r1: "(case next1 (bbs c bb) of
                       None \<Rightarrow> Some (Inr (taken2, al2))
                     | Some b1 \<Rightarrow>
                         if (bb, b1) \<notin> taken2
                         then verifyBB n c b1 reg1 stack1 (insert (bb, b1) taken2, al2)
                         else Some (Inr (taken2, al2))) = Some (Inr (taken', al'))"
    unfolding r0_def by (auto split: if_splits option.splits sum.splits)
  \<comment> \<open>the call for next0\<close>
  have p0: "allocOf al2 = allocOf al \<and> taken \<subseteq> taken2 \<and>
            (\<forall>b0. next0 (bbs c bb) = Some b0 \<longrightarrow> (bb, b0) \<in> taken2) \<and>
            (\<forall>(a, b) \<in> taken2 - taken. explored c al taken2 b)"
  proof (cases "next0 (bbs c bb)")
    case None
    with r0 al1 show ?thesis by (auto simp: r0_def)
  next
    case (Some b0)
    show ?thesis
    proof (cases "(bb, b0) \<in> taken")
      case True
      with Some r0 al1 show ?thesis by (auto simp: r0_def)
    next
      case False
      with Some r0 have "verifyBB n c b0 reg1 stack1 (insert (bb, b0) taken, al1) = Some (Inr (taken2, al2))"
        by (simp add: r0_def)
      from Suc.IH[OF this] have ih: "allocOf al2 = allocOf al1" "insert (bb, b0) taken \<subseteq> taken2"
        "explored c al1 taken2 b0" "\<forall>(a, b) \<in> taken2 - insert (bb, b0) taken. explored c al1 taken2 b"
        by auto
      have e: "explored c al1 taken2 b = explored c al taken2 b" for b
        by (simp add: explored_def blockCoalesced_cong[OF al1])
      from ih al1 Some show ?thesis by (auto simp: e)
    qed
  qed
  \<comment> \<open>the call for next1\<close>
  have p1: "allocOf al' = allocOf al2 \<and> taken2 \<subseteq> taken' \<and>
            (\<forall>b1. next1 (bbs c bb) = Some b1 \<longrightarrow> (bb, b1) \<in> taken') \<and>
            (\<forall>(a, b) \<in> taken' - taken2. explored c al taken' b)"
  proof (cases "next1 (bbs c bb)")
    case None
    with r1 show ?thesis by auto
  next
    case (Some b1)
    show ?thesis
    proof (cases "(bb, b1) \<in> taken2")
      case True
      with Some r1 show ?thesis by auto
    next
      case False
      with Some r1 have "verifyBB n c b1 reg1 stack1 (insert (bb, b1) taken2, al2) = Some (Inr (taken', al'))"
        by simp
      from Suc.IH[OF this] have ih: "allocOf al' = allocOf al2" "insert (bb, b1) taken2 \<subseteq> taken'"
        "explored c al2 taken' b1" "\<forall>(a, b) \<in> taken' - insert (bb, b1) taken2. explored c al2 taken' b"
        by auto
      have e: "explored c al2 taken' b = explored c al taken' b" for b
        using p0 by (simp add: explored_def blockCoalesced_cong[of al2 al])
      from ih Some show ?thesis by (auto simp: e)
    qed
  qed
  have sub: "taken \<subseteq> taken'" using p0 p1 by auto
  have bbex: "explored c al taken' bb"
    using blk p0 p1 by (auto simp: explored_def succs_def)
  have "explored c al taken' b" if "(a, b) \<in> taken' - taken" for a b
  proof (cases "(a, b) \<in> taken2")
    case True
    with that p0 have "explored c al taken2 b" by auto
    then show ?thesis using p1 by (auto intro: explored_mono)
  next
    case False
    with that p1 show ?thesis by auto
  qed
  with p0 p1 sub bbex show ?case by auto
qed

lemma explored_reachable:
  assumes e: "explored c al taken (entry c)"
      and cl: "\<forall>(a, b) \<in> taken. explored c al taken b"
      and r: "reachable c bb"
  shows "explored c al taken bb"
  using r unfolding reachable_def
proof (induction rule: rtrancl_induct)
  case base
  show ?case by (rule e)
next
  case (step y z)
  from step.hyps(2) have "z \<in> succs c y" by (simp add: edges_def)
  with step.IH have "(y, z) \<in> taken" by (auto simp: explored_def)
  with cl show ?case by auto
qed

lemma verify_pass_coalesced:
  assumes "verify n c al = Some (Inr r)" and "reachable c bb"
  shows "blockCoalesced c al bb"
proof -
  obtain taken' al' where r: "r = (taken', al')" by (cases r)
  from verifyBB_pass[OF assms(1)[unfolded verify_def r]]
  have "explored c al taken' (entry c)" "\<forall>(a, b) \<in> taken'. explored c al taken' b" by auto
  from explored_reachable[OF this assms(2)] show ?thesis by (simp add: explored_def)
qed

lemma finite_ownEdges: "finite (ownEdges c)"
proof -
  have "ownEdges c \<subseteq> (\<Union>a \<in> {..< nextBBId c}. {a} \<times> succs c a)"
    by (auto simp: ownEdges_def)
  moreover have "finite (\<Union>a \<in> {..< nextBBId c}. {a} \<times> succs c a)"
    by (auto simp: succs_def)
  ultimately show ?thesis by (rule finite_subset)
qed

lemma closedCFG_succ:
  assumes "closedCFG c" "a < nextBBId c" "b \<in> succs c a"
  shows "b < nextBBId c"
proof -
  from assms(2) have "a \<in> set [0 ..< nextBBId c]" by simp
  with assms(1) have
    n0: "list_all (\<lambda>b. b < nextBBId c) (case next0 (bbs c a) of None \<Rightarrow> [] | Some b \<Rightarrow> [b])" and
    n1: "list_all (\<lambda>b. b < nextBBId c) (case next1 (bbs c a) of None \<Rightarrow> [] | Some b \<Rightarrow> [b])"
    unfolding closedCFG_def list_all_iff by blast+
  from assms(3) consider "next0 (bbs c a) = Some b" | "next1 (bbs c a) = Some b"
    by (auto simp: succs_def)
  then show ?thesis
  proof cases
    case 1
    with n0 show ?thesis by simp
  next
    case 2
    with n1 show ?thesis by simp
  qed
qed

lemma card_less_new_edge:
  assumes "e \<in> ownEdges c" "e \<notin> taken"
  shows "card (ownEdges c - insert e taken) < card (ownEdges c - taken)"
proof -
  have "ownEdges c - insert e taken \<subset> ownEdges c - taken" using assms by auto
  then show ?thesis by (intro psubset_card_mono) (auto simp: finite_ownEdges)
qed

lemma card_mono_taken: "taken \<subseteq> taken' \<Longrightarrow> card (ownEdges c - taken') \<le> card (ownEdges c - taken)"
  by (intro card_mono) (auto simp: finite_ownEdges)

lemma verifyBB_terminates:
  "closedCFG c \<Longrightarrow> bb < nextBBId c \<Longrightarrow> card (ownEdges c - taken) < n \<Longrightarrow>
   verifyBB n c bb reg stack (taken, al) \<noteq> None"
proof (induction n arbitrary: bb reg stack taken al)
  case 0
  then show ?case by simp
next
  case (Suc n)
  show ?case
  proof (cases "runSteps (verifyInstr c) (instrs (bbs c bb)) (al, reg, stack)")
    case (Inl e)
    then show ?thesis by simp
  next
    case (Inr s1)
    obtain al1 reg1 stack1 where s1: "s1 = (al1, reg1, stack1)" by (cases s1)
    define r0 where "r0 = (case next0 (bbs c bb) of
                        None \<Rightarrow> Some (Inr (taken, al1))
                      | Some b0 \<Rightarrow>
                          if (bb, b0) \<notin> taken
                          then verifyBB n c b0 reg1 stack1 (insert (bb, b0) taken, al1)
                          else Some (Inr (taken, al1)))"
    have r0some: "r0 \<noteq> None"
    proof (cases "next0 (bbs c bb)")
      case None
      then show ?thesis by (simp add: r0_def)
    next
      case (Some b0)
      show ?thesis
      proof (cases "(bb, b0) \<in> taken")
        case True
        with Some show ?thesis by (simp add: r0_def)
      next
        case False
        have e: "(bb, b0) \<in> ownEdges c" using Some Suc.prems(2) by (simp add: ownEdges_def succs_def)
        have b0: "b0 < nextBBId c"
          using closedCFG_succ[OF Suc.prems(1,2), of b0] Some by (simp add: succs_def)
        have "card (ownEdges c - insert (bb, b0) taken) < n"
          using card_less_new_edge[OF e False] Suc.prems(3) by simp
        from Suc.IH[OF Suc.prems(1) b0 this] Some False show ?thesis by (simp add: r0_def)
      qed
    qed
    have r0sub: "taken \<subseteq> taken2" if "r0 = Some (Inr (taken2, al2))" for taken2 al2
    proof (cases "next0 (bbs c bb)")
      case None
      with that show ?thesis by (simp add: r0_def)
    next
      case (Some b0)
      show ?thesis
      proof (cases "(bb, b0) \<in> taken")
        case True
        with Some that show ?thesis by (simp add: r0_def)
      next
        case False
        with Some that have "verifyBB n c b0 reg1 stack1 (insert (bb, b0) taken, al1) = Some (Inr (taken2, al2))"
          by (simp add: r0_def)
        from verifyBB_pass[OF this] show ?thesis by auto
      qed
    qed
    have r1some: "(case next1 (bbs c bb) of
                       None \<Rightarrow> Some (Inr (taken2, al2))
                     | Some b1 \<Rightarrow>
                         if (bb, b1) \<notin> taken2
                         then verifyBB n c b1 reg1 stack1 (insert (bb, b1) taken2, al2)
                         else Some (Inr (taken2, al2))) \<noteq> None"
      if "r0 = Some (Inr (taken2, al2))" for taken2 al2
    proof (cases "next1 (bbs c bb)")
      case None
      then show ?thesis by simp
    next
      case (Some b1)
      show ?thesis
      proof (cases "(bb, b1) \<in> taken2")
        case True
        with Some show ?thesis by simp
      next
        case False
        have e: "(bb, b1) \<in> ownEdges c" using Some Suc.prems(2) by (simp add: ownEdges_def succs_def)
        have b1: "b1 < nextBBId c"
          using closedCFG_succ[OF Suc.prems(1,2), of b1] Some by (simp add: succs_def)
        have "card (ownEdges c - insert (bb, b1) taken2) < card (ownEdges c - taken2)"
          by (rule card_less_new_edge[OF e False])
        also have "\<dots> \<le> card (ownEdges c - taken)"
          by (rule card_mono_taken[OF r0sub[OF that]])
        finally have "card (ownEdges c - insert (bb, b1) taken2) < n" using Suc.prems(3) by simp
        from Suc.IH[OF Suc.prems(1) b1 this] Some False show ?thesis by simp
      qed
    qed
    show ?thesis
    proof (cases r0)
      case None
      with r0some show ?thesis by simp
    next
      case (Some res)
      show ?thesis
      proof (cases res)
        case (Inl e)
        with Some Inr s1 show ?thesis by (simp add: r0_def[symmetric])
      next
        case (Inr g2)
        obtain taken2 al2 where g2: "g2 = (taken2, al2)" by (cases g2)
        from r1some[of taken2 al2] Some Inr g2 \<open>runSteps (verifyInstr c) (instrs (bbs c bb)) (al, reg, stack) = Inr s1\<close> s1
        show ?thesis by (simp add: r0_def[symmetric])
      qed
    qed
  qed
qed

lemma verify_terminates: "closedCFG c \<Longrightarrow> verify (Suc (card (ownEdges c))) c al \<noteq> None"
  unfolding verify_def
  by (rule verifyBB_terminates) (auto simp: closedCFG_def)

subsection \<open>The allocator: searches and invariants\<close>

lemma interfere_sym: "interfere a b = Inr False \<Longrightarrow> interfere b a = Inr False"
  by (auto simp: interfere_def interfereLoop_sym split: if_splits)

lemma noInterference_sym: "noInterference lv a b \<Longrightarrow> noInterference lv b a"
  by (auto simp: noInterference_def interfere_sym split: option.splits)

lemma slotIsAvailableLoop_True:
  "slotIsAvailableLoop lv os i = Inr True \<Longrightarrow> \<forall>other \<in> set os. noInterference lv other i"
proof (induction os)
  case Nil
  then show ?case by simp
next
  case (Cons other os)
  from Cons.prems obtain lo li where l: "lv other = Some lo" "lv i = Some li"
    by (auto split: option.splits)
  from Cons.prems l have i: "interfere lo li = Inr False"
    and r: "slotIsAvailableLoop lv os i = Inr True"
    by (auto split: sum.splits bool.splits)
  from l i have "noInterference lv other i" by (simp add: noInterference_def)
  with Cons.IH[OF r] show ?case by simp
qed

lemma slotIsAvailable_True:
  "slotIsAvailable lv ra slot i = Inr True \<Longrightarrow>
   \<forall>other \<in> set (slotValues ra slot). noInterference lv other i"
  unfolding slotIsAvailable_def by (rule slotIsAvailableLoop_True)

lemma phiArgsAvailable_result:
  "phiArgsAvailable lv ra slot vs success = Inr r \<Longrightarrow>
   r = (success \<and> list_all (\<lambda>v. slotIsAvailable lv ra slot v = Inr True) vs)"
proof (induction vs arbitrary: success)
  case Nil
  then show ?case by simp
next
  case (Cons v vs)
  from Cons.prems obtain a where a: "slotIsAvailable lv ra slot v = Inr a"
    and r: "phiArgsAvailable lv ra slot vs (if \<not> a then False else success) = Inr r"
    by (auto split: sum.splits)
  from Cons.IH[OF r] a show ?case by auto
qed

lemma phiSlotOk_result:
  "phiSlotOk lv ra p vs slot = Inr r \<Longrightarrow> r = availableForPhi lv ra slot p vs"
  unfolding phiSlotOk_def availableForPhi_def
  by (auto split: sum.splits if_splits dest: phiArgsAvailable_result)

lemma findPhiSlot_least:
  "findPhiSlot lv ra p vs slot0 = Inr slot \<Longrightarrow>
   slot0 < slot \<and> availableForPhi lv ra slot p vs \<and>
   (\<forall>s. slot0 < s \<and> s < slot \<longrightarrow> \<not> availableForPhi lv ra s p vs)"
proof (induction lv ra p vs slot0 rule: findPhiSlot.induct)
  case (1 lv ra p vs slot0)
  from "1.prems" obtain r where ok: "phiSlotOk lv ra p vs (slot0 + 1) = Inr r"
    by (subst (asm) findPhiSlot.simps) (auto split: sum.splits)
  show ?case
  proof (cases r)
    case True
    with ok "1.prems" have "slot = slot0 + 1"
      by (subst (asm) findPhiSlot.simps) simp
    with phiSlotOk_result[OF ok] True show ?thesis by auto
  next
    case False
    with ok "1.prems" have rec: "findPhiSlot lv ra p vs (slot0 + 1) = Inr slot"
      by (subst (asm) findPhiSlot.simps) simp
    from "1.IH"[OF ok _ rec] False have ih: "slot0 + 1 < slot" "availableForPhi lv ra slot p vs"
      "\<forall>s. slot0 + 1 < s \<and> s < slot \<longrightarrow> \<not> availableForPhi lv ra s p vs" by auto
    have "\<not> availableForPhi lv ra (slot0 + 1) p vs"
      using phiSlotOk_result[OF ok] False by simp
    with ih show ?thesis
      by (metis Suc_eq_plus1 Suc_lessI less_SucI less_Suc_eq Suc_lessD)
  qed
qed

lemma findFreeSlot_least:
  "findFreeSlot lv ra i slot0 = Inr slot \<Longrightarrow>
   slot0 < slot \<and> slotIsAvailable lv ra slot i = Inr True \<and>
   (\<forall>s. slot0 < s \<and> s < slot \<longrightarrow> slotIsAvailable lv ra s i = Inr False)"
proof (induction lv ra i slot0 rule: findFreeSlot.induct)
  case (1 lv ra i slot0)
  from "1.prems" obtain r where ok: "slotIsAvailable lv ra (slot0 + 1) i = Inr r"
    by (subst (asm) findFreeSlot.simps) (auto split: sum.splits)
  show ?case
  proof (cases r)
    case True
    with ok "1.prems" have "slot = slot0 + 1"
      by (subst (asm) findFreeSlot.simps) simp
    with ok True show ?thesis by auto
  next
    case False
    with ok "1.prems" have rec: "findFreeSlot lv ra i (slot0 + 1) = Inr slot"
      by (subst (asm) findFreeSlot.simps) simp
    from "1.IH"[OF ok _ rec] False have ih: "slot0 + 1 < slot" "slotIsAvailable lv ra slot i = Inr True"
      "\<forall>s. slot0 + 1 < s \<and> s < slot \<longrightarrow> slotIsAvailable lv ra s i = Inr False" by auto
    have "slotIsAvailable lv ra s i = Inr False" if "slot0 < s" "s < slot" for s
    proof (cases "s = slot0 + 1")
      case True
      with ok False show ?thesis by simp
    next
      case False
      with that ih(3) show ?thesis by simp
    qed
    with ih show ?thesis by auto
  qed
qed

lemma slotValues_raInsert:
  "slotValues (raInsert ra slot v) s =
     (if s = slot then List.insert v (slotValues ra slot) else slotValues ra s)"
  by (simp add: slotValues_def raInsert_def update_conv')

lemma placeAll_result:
  "placeAll vs slot (al, ra) = (al', ra') \<Longrightarrow>
     al' = (\<lambda>v. if v \<in> set vs then Some slot else al v) \<and>
     (\<forall>s. set (slotValues ra' s) =
            (if s = slot then set vs \<union> set (slotValues ra slot) else set (slotValues ra s)))"
proof (induction vs arbitrary: al ra)
  case Nil
  then show ?case by simp
next
  case (Cons v vs)
  from Cons.prems have "placeAll vs slot (al(v \<mapsto> slot), raInsert ra slot v) = (al', ra')" by simp
  from Cons.IH[OF this] show ?case
    by (auto simp: slotValues_raInsert fun_eq_iff)
qed

lemma coalescedTogether_phi:
  assumes "p \<in> set ps" "isPhi c p" "v1 \<in> insert p (set (map snd (phiArgs c p)))"
      "v2 \<in> insert p (set (map snd (phiArgs c p)))"
  shows "coalescedTogether c ps v1 v2"
  using assms unfolding coalescedTogether_def list_ex_iff by auto

lemma slotsSafe_place_group:
  assumes safe: "slotsSafe lv c ps ra"
      and new: "\<forall>s. set (slotValues ra' s) =
                  (if s = slot then G \<union> set (slotValues ra slot) else set (slotValues ra s))"
      and free: "\<forall>v \<in> G. \<forall>other \<in> set (slotValues ra slot). other \<noteq> v \<longrightarrow> noInterference lv other v"
      and grp: "\<forall>v1 \<in> G. \<forall>v2 \<in> G. v1 \<noteq> v2 \<longrightarrow> coalescedTogether c ps v1 v2"
  shows "slotsSafe lv c ps ra'"
  unfolding slotsSafe_def
proof (intro allI impI)
  fix s v1 v2
  assume a: "v1 \<in> set (slotValues ra' s) \<and> v2 \<in> set (slotValues ra' s) \<and> v1 \<noteq> v2"
  then have neq: "v1 \<noteq> v2" by simp
  have old: "noInterference lv w1 w2 \<or> coalescedTogether c ps w1 w2"
    if "w1 \<in> set (slotValues ra t)" "w2 \<in> set (slotValues ra t)" "w1 \<noteq> w2" for w1 w2 t
    using safe[unfolded slotsSafe_def, rule_format, of w1 t w2] that by simp
  show "noInterference lv v1 v2 \<or> coalescedTogether c ps v1 v2"
  proof (cases "s = slot")
    case False
    then have "set (slotValues ra' s) = set (slotValues ra s)"
      using new[rule_format, of s] by simp
    with a have "v1 \<in> set (slotValues ra s)" "v2 \<in> set (slotValues ra s)" by simp_all
    then show ?thesis using neq by (rule old)
  next
    case True
    then have "set (slotValues ra' s) = G \<union> set (slotValues ra slot)"
      using new[rule_format, of s] by simp
    with a have m1: "v1 \<in> G \<or> v1 \<in> set (slotValues ra slot)"
      and m2: "v2 \<in> G \<or> v2 \<in> set (slotValues ra slot)" by simp_all
    show ?thesis
    proof (cases "v1 \<in> G")
      case v1G: True
      show ?thesis
      proof (cases "v2 \<in> G")
        case True
        from grp[rule_format, OF v1G True neq] show ?thesis by simp
      next
        case False
        with m2 have o2: "v2 \<in> set (slotValues ra slot)" by simp
        from free[rule_format, OF v1G o2] neq have "noInterference lv v2 v1" by simp
        then show ?thesis by (simp add: noInterference_sym)
      qed
    next
      case v1o: False
      with m1 have o1: "v1 \<in> set (slotValues ra slot)" by simp
      show ?thesis
      proof (cases "v2 \<in> G")
        case True
        from free[rule_format, OF True o1] neq show ?thesis by simp
      next
        case False
        with m2 have "v2 \<in> set (slotValues ra slot)" by simp
        with o1 show ?thesis using neq by (rule old)
      qed
    qed
  qed
qed

lemma precolorPhi_placed:
  assumes "isPhi c p" "al p = None" "precolorPhi lv c p (al, ra) = Inr (al', ra')"
  shows "\<exists>slot. findPhiSlot lv ra p (map snd (phiArgs c p)) unassignedSlot = Inr slot \<and>
           al' = (\<lambda>v. if v \<in> insert p (set (map snd (phiArgs c p))) then Some slot else al v) \<and>
           (\<forall>s. set (slotValues ra' s) =
              (if s = slot then insert p (set (map snd (phiArgs c p))) \<union> set (slotValues ra slot)
               else set (slotValues ra s)))"
proof -
  let ?vs = "map snd (phiArgs c p)"
  from assms obtain slot where f: "findPhiSlot lv ra p ?vs unassignedSlot = Inr slot"
    and pl: "placeAll ?vs slot (al(p \<mapsto> slot), raInsert ra slot p) = (al', ra')"
    by (auto simp: precolorPhi_def split: sum.splits)
  from placeAll_result[OF pl] have
    al': "al' = (\<lambda>v. if v \<in> set ?vs then Some slot else (al(p \<mapsto> slot)) v)" and
    ra': "\<forall>s. set (slotValues ra' s) =
            (if s = slot then set ?vs \<union> set (slotValues (raInsert ra slot p) slot)
             else set (slotValues (raInsert ra slot p) s))" by auto
  have 1: "al' = (\<lambda>v. if v \<in> insert p (set ?vs) then Some slot else al v)"
    using al' by (auto simp: fun_eq_iff)
  have 2: "\<forall>s. set (slotValues ra' s) =
              (if s = slot then insert p (set ?vs) \<union> set (slotValues ra slot)
               else set (slotValues ra s))"
    using ra' by (auto simp: slotValues_raInsert)
  from f 1 2 show ?thesis by blast
qed

lemma availableForPhi_free:
  assumes "availableForPhi lv ra slot p vs"
  shows "\<forall>v \<in> insert p (set vs). \<forall>other \<in> set (slotValues ra slot). noInterference lv other v"
  using assms slotIsAvailable_True[of lv ra slot]
  unfolding availableForPhi_def list_all_iff by blast

lemma precolorPhi_inv:
  assumes "p \<in> set ps" "slotsSafe lv c ps ra" "allocTracked al0 al ra"
      and "precolorPhi lv c p (al, ra) = Inr (al', ra')"
  shows "slotsSafe lv c ps ra' \<and> allocTracked al0 al' ra'"
proof (cases "isPhi c p \<and> al p = None")
  case False
  with assms show ?thesis by (auto simp: precolorPhi_def)
next
  case True
  let ?G = "insert p (set (map snd (phiArgs c p)))"
  from True have phi: "isPhi c p" and un: "al p = None" by auto
  from precolorPhi_placed[OF phi un assms(4)] obtain slot where
    f: "findPhiSlot lv ra p (map snd (phiArgs c p)) unassignedSlot = Inr slot" and
    al': "al' = (\<lambda>v. if v \<in> ?G then Some slot else al v)" and
    ra': "\<forall>s. set (slotValues ra' s) =
              (if s = slot then ?G \<union> set (slotValues ra slot) else set (slotValues ra s))"
    by blast
  from findPhiSlot_least[OF f] have av: "availableForPhi lv ra slot p (map snd (phiArgs c p))"
    by simp
  have free: "\<forall>v \<in> ?G. \<forall>other \<in> set (slotValues ra slot). other \<noteq> v \<longrightarrow> noInterference lv other v"
    using availableForPhi_free[OF av] by blast
  have grp: "\<forall>v1 \<in> ?G. \<forall>v2 \<in> ?G. v1 \<noteq> v2 \<longrightarrow> coalescedTogether c ps v1 v2"
    using coalescedTogether_phi[OF assms(1) phi] by blast
  have s: "slotsSafe lv c ps ra'"
    by (rule slotsSafe_place_group[OF assms(2) ra' free grp])
  have t: "allocTracked al0 al' ra'"
    using assms(3) al' ra' unfolding allocTracked_def by (auto split: if_splits)
  from s t show ?thesis by simp
qed

lemma place_one_inv:
  assumes "slotsSafe lv c ps ra" "allocTracked al0 al ra"
      and "slotIsAvailable lv ra slot i = Inr True"
  shows "slotsSafe lv c ps (raInsert ra slot i) \<and> allocTracked al0 (al(i \<mapsto> slot)) (raInsert ra slot i)"
proof -
  have new: "\<forall>s. set (slotValues (raInsert ra slot i) s) =
                  (if s = slot then {i} \<union> set (slotValues ra slot) else set (slotValues ra s))"
    by (simp add: slotValues_raInsert)
  have free: "\<forall>v \<in> {i}. \<forall>other \<in> set (slotValues ra slot). other \<noteq> v \<longrightarrow> noInterference lv other v"
    using slotIsAvailable_True[OF assms(3)] by simp
  have grp: "\<forall>v1 \<in> {i}. \<forall>v2 \<in> {i}. v1 \<noteq> v2 \<longrightarrow> coalescedTogether c ps v1 v2" by simp
  have s: "slotsSafe lv c ps (raInsert ra slot i)"
    by (rule slotsSafe_place_group[OF assms(1) new free grp])
  have t: "allocTracked al0 (al(i \<mapsto> slot)) (raInsert ra slot i)"
    using assms(2) unfolding allocTracked_def by (auto simp: slotValues_raInsert)
  from s t show ?thesis by simp
qed

lemma placeFree_inv:
  assumes "slotsSafe lv c ps ra" "allocTracked al0 al ra"
      and "placeFree lv i (al, ra) = Inr (al', ra')"
  shows "slotsSafe lv c ps ra' \<and> allocTracked al0 al' ra'"
proof -
  from assms(3) obtain slot where f: "findFreeSlot lv ra i unassignedSlot = Inr slot"
    and r: "al' = al(i \<mapsto> slot)" "ra' = raInsert ra slot i"
    by (auto simp: placeFree_def split: sum.splits)
  from findFreeSlot_least[OF f] have "slotIsAvailable lv ra slot i = Inr True" by simp
  from place_one_inv[OF assms(1,2) this] r show ?thesis by simp
qed

lemma allocInstr_inv:
  assumes "slotsSafe lv c ps ra" "allocTracked al0 al ra"
      and "allocInstr lv c i (al, ra) = Inr (al', ra')"
  shows "slotsSafe lv c ps ra' \<and> allocTracked al0 al' ra'"
proof (cases "al i = None \<and> lv i \<noteq> None")
  case False
  with assms show ?thesis by (auto simp: allocInstr_def)
next
  case True
  let ?hint = "slotHint c al i"
  show ?thesis
  proof (cases "?hint \<noteq> unassignedSlot \<and> ?hint \<noteq> stackSlot")
    case False
    with True assms(3) have "placeFree lv i (al, ra) = Inr (al', ra')"
      by (auto simp: allocInstr_def Let_def)
    from placeFree_inv[OF assms(1,2) this] show ?thesis .
  next
    case h: True
    from True h assms(3) obtain a where a: "slotIsAvailable lv ra ?hint i = Inr a"
      by (auto simp: allocInstr_def Let_def split: sum.splits)
    show ?thesis
    proof (cases a)
      case True
      with \<open>al i = None \<and> lv i \<noteq> None\<close> h a assms(3)
      have r: "al' = al(i \<mapsto> ?hint)" "ra' = raInsert ra ?hint i"
        by (auto simp: allocInstr_def Let_def)
      from place_one_inv[OF assms(1,2), of ?hint i] a True r show ?thesis by simp
    next
      case False
      with \<open>al i = None \<and> lv i \<noteq> None\<close> h a assms(3)
      have "placeFree lv i (al, ra) = Inr (al', ra')"
        by (auto simp: allocInstr_def Let_def)
      from placeFree_inv[OF assms(1,2) this] show ?thesis .
    qed
  qed
qed

lemma runSteps_precolorPhi_inv:
  "set is \<subseteq> set ps \<Longrightarrow> slotsSafe lv c ps ra \<Longrightarrow> allocTracked al0 al ra \<Longrightarrow>
   runSteps (precolorPhi lv c) is (al, ra) = Inr (al', ra') \<Longrightarrow>
   slotsSafe lv c ps ra' \<and> allocTracked al0 al' ra'"
proof (induction "is" arbitrary: al ra)
  case Nil
  then show ?case by simp
next
  case (Cons i "is")
  from Cons.prems(4) obtain al1 ra1 where st: "precolorPhi lv c i (al, ra) = Inr (al1, ra1)"
    and r: "runSteps (precolorPhi lv c) is (al1, ra1) = Inr (al', ra')"
    by (auto split: sum.splits)
  from Cons.prems(1) have i: "i \<in> set ps" and sub: "set is \<subseteq> set ps" by auto
  from precolorPhi_inv[OF i Cons.prems(2,3) st] have "slotsSafe lv c ps ra1" "allocTracked al0 al1 ra1"
    by auto
  from Cons.IH[OF sub this r] show ?case .
qed

lemma runSteps_allocInstr_inv:
  "slotsSafe lv c ps ra \<Longrightarrow> allocTracked al0 al ra \<Longrightarrow>
   runSteps (allocInstr lv c) is (al, ra) = Inr (al', ra') \<Longrightarrow>
   slotsSafe lv c ps ra' \<and> allocTracked al0 al' ra'"
proof (induction "is" arbitrary: al ra)
  case Nil
  then show ?case by simp
next
  case (Cons i "is")
  from Cons.prems(3) obtain al1 ra1 where st: "allocInstr lv c i (al, ra) = Inr (al1, ra1)"
    and r: "runSteps (allocInstr lv c) is (al1, ra1) = Inr (al', ra')"
    by (auto split: sum.splits)
  from allocInstr_inv[OF Cons.prems(1,2) st] have "slotsSafe lv c ps ra1" "allocTracked al0 al1 ra1"
    by auto
  from Cons.IH[OF this r] show ?case .
qed

lemma computeAllocation_inv:
  assumes "computeAllocation lv c order domOrder al = Inr (al', ra')"
  shows "slotsSafe lv c (instrsOf c order) ra' \<and> allocTracked al al' ra'"
proof -
  from assms obtain al1 ra1 where
    p1: "runSteps (precolorPhi lv c) (instrsOf c order) (al, []) = Inr (al1, ra1)" and
    p2: "runSteps (allocInstr lv c) (instrsOf c domOrder) (al1, ra1) = Inr (al', ra')"
    by (auto simp: computeAllocation_def split: sum.splits)
  have s0: "slotsSafe lv c (instrsOf c order) []" by (simp add: slotsSafe_def slotValues_def)
  have t0: "allocTracked al al []" by (simp add: allocTracked_def)
  from runSteps_precolorPhi_inv[OF subset_refl s0 t0 p1]
  have "slotsSafe lv c (instrsOf c order) ra1" "allocTracked al al1 ra1" by auto
  from runSteps_allocInstr_inv[OF this p2] show ?thesis .
qed

subsection \<open>Liveness: merging into the predecessors\<close>

lemma set_setInsert: "set (setInsert x xs) = insert x (set xs)"
  by (simp add: setInsert_def set_insort_insert)

lemma set_setInsertAll: "set (setInsertAll new xs) = set new \<union> set xs"
  unfolding setInsertAll_def by (induction new) (auto simp: set_setInsert)

lemma phiInputsFor_Nil: "phiInputsFor cfg [] pre = {}"
  by (simp add: phiInputsFor_def)

lemma phiInputsFor_Cons:
  "phiInputsFor cfg ((inBB, inLive) # rest) pre =
     (if pre = inBB \<or> isPredecessor cfg inBB pre then set inLive else {}) \<union>
     phiInputsFor cfg rest pre"
  by (auto simp: phiInputsFor_def)

lemma merge_mergedInto: "mergedInto bb (set liveSet) s (merge bb liveSet s)"
proof (cases s)
  case (Pair la todo)
  show ?thesis
  proof (cases "set liveSet \<subseteq> set (liveOutOf la bb)")
    case True
    then have "merge bb liveSet s = (la(bb \<mapsto> liveOutOf la bb), todo)"
      by (simp add: Pair merge_def)
    with True show ?thesis
      by (auto simp: Pair mergedInto_def liveOutOf_def)
  next
    case False
    then have "merge bb liveSet s =
        (la(bb \<mapsto> setInsertAll liveSet (liveOutOf la bb)), setInsert bb todo)"
      by (simp add: Pair merge_def)
    then show ?thesis
      by (auto simp: Pair mergedInto_def liveOutOf_def set_setInsertAll set_setInsert)
  qed
qed

lemma mergedInto_refl: "mergedInto bb {} s s"
  by (simp add: mergedInto_def)

lemma mergedInto_trans:
  assumes "mergedInto bb A s s1" "mergedInto bb B s1 s2"
  shows "mergedInto bb (A \<union> B) s s2"
proof -
  have 1: "set (liveOutOf (fst s2) bb) = set (liveOutOf (fst s) bb) \<union> (A \<union> B)"
    using assms by (simp add: mergedInto_def Un_assoc)
  have 2: "\<forall>b. b \<noteq> bb \<longrightarrow> fst s2 b = fst s b"
    using assms by (simp add: mergedInto_def)
  have 3: "set (snd s) \<subseteq> set (snd s2)"
    using assms unfolding mergedInto_def by blast
  have 4: "bb \<in> set (snd s2)" if "set (liveOutOf (fst s2) bb) \<noteq> set (liveOutOf (fst s) bb)"
  proof (cases "set (liveOutOf (fst s1) bb) = set (liveOutOf (fst s) bb)")
    case True
    with that assms(2) show ?thesis by (simp add: mergedInto_def)
  next
    case False
    with assms(1) have "bb \<in> set (snd s1)" by (simp add: mergedInto_def)
    with assms(2) show ?thesis unfolding mergedInto_def by blast
  qed
  from 1 2 3 4 show ?thesis unfolding mergedInto_def by blast
qed

lemma mergePhiInp_mergedInto:
  "mergedInto bb (phiInputsFor cfg accPhi bb) s (mergePhiInp cfg bb accPhi s)"
proof (induction accPhi arbitrary: s)
  case Nil
  show ?case by (simp add: phiInputsFor_Nil mergedInto_refl)
next
  case (Cons a rest)
  obtain inBB inLive where a: "a = (inBB, inLive)" by (cases a)
  let ?s1 = "if bb = inBB \<or> isPredecessor cfg inBB bb then merge bb inLive s else s"
  have "mergedInto bb (if bb = inBB \<or> isPredecessor cfg inBB bb then set inLive else {}) s ?s1"
    by (simp add: merge_mergedInto mergedInto_refl)
  from mergedInto_trans[OF this Cons.IH[of ?s1]] show ?case
    by (simp add: a phiInputsFor_Cons)
qed

lemma mergePred_mergedInto:
  "mergedInto pre (set accumulated \<union> phiInputsFor cfg accPhi pre) s
     (mergePred cfg accumulated accPhi pre s) \<and>
   (fst s pre = None \<longrightarrow> pre \<in> set (snd (mergePred cfg accumulated accPhi pre s)))"
proof (cases s)
  case (Pair la todo)
  show ?thesis
  proof (cases "la pre")
    case (Some x)
    have "mergedInto pre (set accumulated) s (merge pre accumulated s)"
      by (rule merge_mergedInto)
    from mergedInto_trans[OF this mergePhiInp_mergedInto[of pre cfg accPhi]] Some
    show ?thesis by (simp add: Pair mergePred_def)
  next
    case None
    let ?s0 = "(la(pre \<mapsto> accumulated), todo)"
    obtain la1 todo1 where m: "mergePhiInp cfg pre accPhi ?s0 = (la1, todo1)"
      by (cases "mergePhiInp cfg pre accPhi ?s0")
    from mergePhiInp_mergedInto[of pre cfg accPhi ?s0] m
    have mi: "mergedInto pre (phiInputsFor cfg accPhi pre) ?s0 (la1, todo1)" by simp
    have r: "mergePred cfg accumulated accPhi pre s = (la1, setInsert pre todo1)"
      using None m by (simp add: Pair mergePred_def)
    have "mergedInto pre (set accumulated \<union> phiInputsFor cfg accPhi pre) s (la1, setInsert pre todo1)"
      using mi None unfolding mergedInto_def
      by (auto simp: Pair liveOutOf_def set_setInsert split: if_splits)
    with r show ?thesis by (simp add: set_setInsert)
  qed
qed

lemma liveOutOf_cong: "la' b = la b \<Longrightarrow> liveOutOf la' b = liveOutOf la b"
  by (simp add: liveOutOf_def)

lemma fold_mergePred:
  "fold (mergePred cfg accumulated accPhi) preds s = s' \<Longrightarrow>
   (\<forall>b. set (liveOutOf (fst s') b) =
          set (liveOutOf (fst s) b) \<union>
          (if b \<in> set preds then set accumulated \<union> phiInputsFor cfg accPhi b else {})) \<and>
   (\<forall>b. b \<notin> set preds \<longrightarrow> fst s' b = fst s b) \<and>
   set (snd s) \<subseteq> set (snd s') \<and>
   (\<forall>b. set (liveOutOf (fst s') b) \<noteq> set (liveOutOf (fst s) b) \<longrightarrow> b \<in> set (snd s'))"
proof (induction preds arbitrary: s)
  case Nil
  then show ?case by simp
next
  case (Cons p ps)
  let ?N = "\<lambda>b. set accumulated \<union> phiInputsFor cfg accPhi b"
  let ?s1 = "mergePred cfg accumulated accPhi p s"
  from mergePred_mergedInto[of p accumulated cfg accPhi s]
  have m: "mergedInto p (?N p) s ?s1" by simp
  then have m1: "set (liveOutOf (fst ?s1) p) = set (liveOutOf (fst s) p) \<union> ?N p"
    and m2: "\<And>b. b \<noteq> p \<Longrightarrow> fst ?s1 b = fst s b"
    and m3: "set (snd s) \<subseteq> set (snd ?s1)"
    and m4: "set (liveOutOf (fst ?s1) p) \<noteq> set (liveOutOf (fst s) p) \<Longrightarrow> p \<in> set (snd ?s1)"
    by (simp_all add: mergedInto_def)
  from Cons.prems have f: "fold (mergePred cfg accumulated accPhi) ps ?s1 = s'" by simp
  from Cons.IH[OF f] have
    i1: "\<And>b. set (liveOutOf (fst s') b) =
          set (liveOutOf (fst ?s1) b) \<union> (if b \<in> set ps then ?N b else {})" and
    i2: "\<And>b. b \<notin> set ps \<Longrightarrow> fst s' b = fst ?s1 b" and
    i3: "set (snd ?s1) \<subseteq> set (snd s')" and
    i4: "\<And>b. set (liveOutOf (fst s') b) \<noteq> set (liveOutOf (fst ?s1) b) \<Longrightarrow> b \<in> set (snd s')"
    by blast+
  have s1b: "set (liveOutOf (fst ?s1) b) = set (liveOutOf (fst s) b) \<union> (if b = p then ?N p else {})" for b
  proof (cases "b = p")
    case True
    with m1 show ?thesis by simp
  next
    case False
    from liveOutOf_cong[of "fst ?s1" b "fst s", OF m2[OF False]] False show ?thesis by simp
  qed
  have 1: "set (liveOutOf (fst s') b) =
          set (liveOutOf (fst s) b) \<union> (if b \<in> set (p # ps) then ?N b else {})" for b
    unfolding i1[of b] s1b[of b] by auto
  have 2: "fst s' b = fst s b" if "b \<notin> set (p # ps)" for b
    using that i2[of b] m2[of b] by simp
  have 3: "set (snd s) \<subseteq> set (snd s')" using m3 i3 by blast
  have 4: "b \<in> set (snd s')" if "set (liveOutOf (fst s') b) \<noteq> set (liveOutOf (fst s) b)" for b
  proof (cases "set (liveOutOf (fst s') b) = set (liveOutOf (fst ?s1) b)")
    case False
    then show ?thesis by (rule i4)
  next
    case True
    with that have ne: "set (liveOutOf (fst ?s1) b) \<noteq> set (liveOutOf (fst s) b)" by simp
    have "b = p"
    proof (rule ccontr)
      assume "b \<noteq> p"
      from liveOutOf_cong[of "fst ?s1" b "fst s", OF m2[OF this]] ne show False by simp
    qed
    with ne m4 i3 show ?thesis by blast
  qed
  from 1 2 3 4 show ?case by blast
qed

text \<open>
  Claim C8. At the end of a turn of the liveness loop, the live-out set of every immediate
  predecessor receives the values accumulated in the block, and of the values
  accumulated as phi inputs those, and only those, whose input block is the predecessor
  itself or a block of which \<open>isPredecessor\<close> says that it is a predecessor of it. No
  other live-out set changes, and a block whose live-out set has grown is on the worklist.
\<close>

theorem liveness_merge_into_predecessors:
  assumes "mergeIntoPredecessors cfg bb accumulated accPhi (liveAtEnd, todo) = (liveAtEnd', todo')"
  shows "(\<forall>pre \<in> set (immediatePredecessors cfg bb).
            set (liveOutOf liveAtEnd' pre) =
              set (liveOutOf liveAtEnd pre) \<union> set accumulated \<union>
              \<Union> (set ` snd ` {a \<in> set accPhi. pre = fst a \<or> isPredecessor cfg (fst a) pre})) \<and>
         (\<forall>b. b \<notin> set (immediatePredecessors cfg bb) \<longrightarrow> liveAtEnd' b = liveAtEnd b) \<and>
         (\<forall>b. set (liveOutOf liveAtEnd' b) \<noteq> set (liveOutOf liveAtEnd b) \<longrightarrow> b \<in> set todo') \<and>
         set todo \<subseteq> set todo'"
proof -
  note f = fold_mergePred[OF assms[unfolded mergeIntoPredecessors_def], unfolded fst_conv snd_conv]
  from f have 1: "set (liveOutOf liveAtEnd' b) =
          set (liveOutOf liveAtEnd b) \<union>
          (if b \<in> set (immediatePredecessors cfg bb)
           then set accumulated \<union> phiInputsFor cfg accPhi b else {})" for b
    by blast
  from f have 2: "b \<notin> set (immediatePredecessors cfg bb) \<Longrightarrow> liveAtEnd' b = liveAtEnd b" for b
    by blast
  from f have 3: "set todo \<subseteq> set todo'" by blast
  from f have 4: "set (liveOutOf liveAtEnd' b) \<noteq> set (liveOutOf liveAtEnd b) \<Longrightarrow> b \<in> set todo'" for b
    by blast
  have 5: "set (liveOutOf liveAtEnd' pre) =
              set (liveOutOf liveAtEnd pre) \<union> set accumulated \<union>
              \<Union> (set ` snd ` {a \<in> set accPhi. pre = fst a \<or> isPredecessor cfg (fst a) pre})"
    if "pre \<in> set (immediatePredecessors cfg bb)" for pre
    unfolding 1[of pre] using that by (simp add: phiInputsFor_def Un_assoc)
  show ?thesis
  proof (intro conjI ballI allI impI)
    fix pre assume "pre \<in> set (immediatePredecessors cfg bb)"
    then show "set (liveOutOf liveAtEnd' pre) =
              set (liveOutOf liveAtEnd pre) \<union> set accumulated \<union>
              \<Union> (set ` snd ` {a \<in> set accPhi. pre = fst a \<or> isPredecessor cfg (fst a) pre})"
      by (rule 5)
  next
    fix b assume "b \<notin> set (immediatePredecessors cfg bb)"
    then show "liveAtEnd' b = liveAtEnd b" by (rule 2)
  next
    fix b assume "set (liveOutOf liveAtEnd' b) \<noteq> set (liveOutOf liveAtEnd b)"
    then show "b \<in> set todo'" by (rule 4)
  next
    show "set todo \<subseteq> set todo'" by (rule 3)
  qed
qed

subsection \<open>The loop example: liveness, stack pre-colouring and allocation\<close>

lemma exLoop_bbs:
  "bbs exLoop 0 = \<lparr> instrs = [21, 22], next0 = Some 1, next1 = None \<rparr>"
  "bbs exLoop 1 = \<lparr> instrs = [23, 24, 25, 26, 27, 28], next0 = Some 2, next1 = Some 1 \<rparr>"
  "bbs exLoop (Suc 0) = \<lparr> instrs = [23, 24, 25, 26, 27, 28], next0 = Some 2, next1 = Some 1 \<rparr>"
  "bbs exLoop 2 = \<lparr> instrs = [29, 30], next0 = None, next1 = None \<rparr>"
  "nextBBId exLoop = 3" "entry exLoop = 0"
  by (simp_all add: exLoop_def)

lemma exLoop_vals:
  "vals exLoop 21 = mkInstr LdArg []" "vals exLoop 22 = mkInstr PirCopy [21]"
  "vals exLoop 23 = mkPhi [(0, 22), (1, 27)]" "vals exLoop 24 = mkInstr PirCopy [23]"
  "vals exLoop 25 = mkInstr Inc [24]" "vals exLoop 26 = mkInstr AsTest [25]"
  "vals exLoop 27 = mkInstr PirCopy [25]" "vals exLoop 28 = mkVoid Branch [26]"
  "vals exLoop 29 = mkInstr LdConst []" "vals exLoop 30 = mkVoid Return [29]"
  by (simp_all add: exLoop_def)

lemma mk_simps:
  "tag (mkInstr t as) = t" "args (mkInstr t as) = as" "input (mkInstr t as) = []"
  "voyd (mkInstr t as) = False"
  "tag (mkVoid t as) = t" "args (mkVoid t as) = as" "input (mkVoid t as) = []"
  "voyd (mkVoid t as) = True"
  "tag (mkPhi ps) = Phi" "args (mkPhi ps) = map snd ps" "input (mkPhi ps) = map fst ps"
  "voyd (mkPhi ps) = False"
  by (simp_all add: mkInstr_def mkVoid_def mkPhi_def)

lemma upt3: "[0 ..< 3] = [0, 1, 2]"
  by (simp add: upt_rec)

lemma exLoop_uses: "allUses exLoop = [21, 22, 27, 23, 24, 25, 25, 26, 29]"
  by (simp add: allUses_def exLoop_bbs exLoop_vals mk_simps upt3)

lemma exLoop_single:
  "hasSingleUse exLoop 21" "hasSingleUse exLoop 22" "\<not> hasSingleUse exLoop 23 \<or> True"
  "hasSingleUse exLoop 24" "\<not> hasSingleUse exLoop 25" "hasSingleUse exLoop 26"
  "hasSingleUse exLoop 27" "\<not> hasSingleUse exLoop 28" "hasSingleUse exLoop 29"
  "\<not> hasSingleUse exLoop 30"
  by (simp_all add: hasSingleUse_def exLoop_uses)

lemma exLoop_isPhi:
  "\<not> isPhi exLoop 21" "\<not> isPhi exLoop 22" "isPhi exLoop 23" "\<not> isPhi exLoop 24"
  "\<not> isPhi exLoop 25" "\<not> isPhi exLoop 26" "\<not> isPhi exLoop 27" "\<not> isPhi exLoop 28"
  "\<not> isPhi exLoop 29" "\<not> isPhi exLoop 30"
  by (simp_all add: isPhi_def exLoop_vals mk_simps)

lemma exLoop_args:
  "phiArgs exLoop 23 = [(0, 22), (1, 27)]"
  by (simp add: phiArgs_def exLoop_vals mk_simps)

lemma exLoop_notOnTop: "\<not> argsInRightOrder exLoop (Suc 0) (Suc 0) 23"
  by (simp add: argsInRightOrder_def exLoop_args argMisplaced_def exLoop_bbs)

lemmas stack_defs = stackAllocBB_def windowStep_def tryLoadingArgsFromStack_def pushable_def
  matchArgs_def matchArg_def resize_def

lemma exLoopStackAlloc_eq:
  "exLoopStackAlloc 21 = Some stackSlot" "exLoopStackAlloc 22 = None"
  "exLoopStackAlloc 23 = None" "exLoopStackAlloc 24 = Some stackSlot"
  "exLoopStackAlloc 25 = None" "exLoopStackAlloc 26 = Some stackSlot"
  "exLoopStackAlloc 27 = None" "exLoopStackAlloc 28 = None"
  "exLoopStackAlloc 29 = Some stackSlot" "exLoopStackAlloc 30 = None"
  by (simp_all add: exLoopStackAlloc_def computeStackAllocation_def stack_defs exLoop_bbs exLoop_isPhi
      exLoop_vals mk_simps exLoop_single exLoop_notOnTop)

lemma exLoopCFG_simps:
  "exits exLoopCFG = [2]"
  "immediatePredecessors exLoopCFG 0 = []"
  "immediatePredecessors exLoopCFG (Suc 0) = [0, 1]"
  "immediatePredecessors exLoopCFG 2 = [1]"
  "isPredecessor exLoopCFG a b = ((a = 0 \<or> a = 1) \<and> (b = 1 \<or> b = 2))"
  by (simp_all add: exLoopCFG_def)

lemmas liveness_defs = processBlock_def walkInstr_def markIfNotSeen_def mergeIntoPredecessors_def
  mergePred_def merge_def setInsert_def setInsertAll_def liveOutOf_def phiInputInsert_def
  BBLiveness_init_def insort_insert_key_def Let_def

lemma replicate3: "replicate 3 x = [x, x, x]"
  by (simp add: numeral_3_eq_3)

lemma fuel5: "(5::nat) = Suc (Suc (Suc (Suc (Suc 0))))"
  by simp

lemmas exLoop_eval = exLoopLiveness_def computeLiveness_def fuel5 liveness_defs exLoop_bbs
  exLoop_vals mk_simps exLoop_isPhi exLoop_args exLoopCFG_simps replicate3

lemma exLoopLiveness_run: "computeLiveness 5 exLoop exLoopCFG = Some (Inr exLoopLiveness)"
proof -
  have "\<exists>lv. computeLiveness 5 exLoop exLoopCFG = Some (Inr lv)"
    by (simp add: exLoop_eval)
  then show ?thesis by (auto simp: exLoopLiveness_def)
qed

lemma exLoopLiveness_eq:
  "exLoopLiveness 21 = Some
       [\<lparr>live = True, lbegin = 0, lend = 1\<rparr>,
        \<lparr>live = False, lbegin = - 1, lend = - 1\<rparr>,
        \<lparr>live = False, lbegin = - 1, lend = - 1\<rparr>]"
  "exLoopLiveness 22 = Some
       [\<lparr>live = True, lbegin = 1, lend = 2\<rparr>,
        \<lparr>live = True, lbegin = 0, lend = 6\<rparr>,
        \<lparr>live = False, lbegin = - 1, lend = - 1\<rparr>]"
  "exLoopLiveness 23 = Some
       [\<lparr>live = False, lbegin = - 1, lend = - 1\<rparr>,
        \<lparr>live = True, lbegin = 0, lend = 1\<rparr>,
        \<lparr>live = False, lbegin = - 1, lend = - 1\<rparr>]"
  "exLoopLiveness 24 = Some
       [\<lparr>live = False, lbegin = - 1, lend = - 1\<rparr>,
        \<lparr>live = True, lbegin = 1, lend = 2\<rparr>,
        \<lparr>live = False, lbegin = - 1, lend = - 1\<rparr>]"
  "exLoopLiveness 25 = Some
       [\<lparr>live = False, lbegin = - 1, lend = - 1\<rparr>,
        \<lparr>live = True, lbegin = 2, lend = 4\<rparr>,
        \<lparr>live = False, lbegin = - 1, lend = - 1\<rparr>]"
  "exLoopLiveness 26 = Some
       [\<lparr>live = False, lbegin = - 1, lend = - 1\<rparr>,
        \<lparr>live = True, lbegin = 3, lend = 5\<rparr>,
        \<lparr>live = False, lbegin = - 1, lend = - 1\<rparr>]"
  "exLoopLiveness 27 = Some
       [\<lparr>live = False, lbegin = - 1, lend = - 1\<rparr>,
        \<lparr>live = True, lbegin = 4, lend = 6\<rparr>,
        \<lparr>live = False, lbegin = - 1, lend = - 1\<rparr>]"
  "exLoopLiveness 28 = None"
  "exLoopLiveness 29 = Some
       [\<lparr>live = False, lbegin = - 1, lend = - 1\<rparr>,
        \<lparr>live = False, lbegin = - 1, lend = - 1\<rparr>,
        \<lparr>live = True, lbegin = 0, lend = 1\<rparr>]"
  "exLoopLiveness 30 = None"
  by (simp_all add: exLoop_eval)

lemma stackSlot_neq: "stackSlot \<noteq> 0" "stackSlot \<noteq> Suc 0" "stackSlot \<noteq> 1" "stackSlot \<noteq> 2"
  "0 \<noteq> stackSlot" "Suc 0 \<noteq> stackSlot" "2 \<noteq> stackSlot" "Suc (Suc 0) \<noteq> stackSlot"
  "stackSlot \<noteq> Suc (Suc 0)"
  by (simp_all add: stackSlot_def)

lemmas alloc_defs = computeAllocation_def instrsOf_def precolorPhi_def allocInstr_def placeFree_def
  slotHint_def phiSlotOk_def slotIsAvailable_def slotValues_def raInsert_def interfere_def
  overlapAt_def unassignedSlot_def isInstruction_def Let_def

lemma exLoopAllocation_run:
  "computeAllocation exLoopLiveness exLoop [0, 1, 2] [0, 1, 2] exLoopStackAlloc =
     Inr exLoopAllocation"
proof -
  have "\<exists>r. computeAllocation exLoopLiveness exLoop [0, 1, 2] [0, 1, 2] exLoopStackAlloc = Inr r"
    by (simp add: alloc_defs findPhiSlot.simps findFreeSlot.simps exLoop_bbs exLoop_vals
        mk_simps exLoop_isPhi exLoop_args exLoopLiveness_eq exLoopStackAlloc_eq stackSlot_neq)
  then show ?thesis by (auto simp: exLoopAllocation_def)
qed

lemma exLoopAllocation_eq:
  "fst exLoopAllocation 21 = Some stackSlot" "fst exLoopAllocation 22 = Some 1"
  "fst exLoopAllocation 23 = Some 1" "fst exLoopAllocation 24 = Some stackSlot"
  "fst exLoopAllocation 25 = Some 2" "fst exLoopAllocation 26 = Some stackSlot"
  "fst exLoopAllocation 27 = Some 1" "fst exLoopAllocation 28 = None"
  "fst exLoopAllocation 29 = Some stackSlot" "fst exLoopAllocation 30 = None"
  "snd exLoopAllocation = [(1, [27, 22, 23]), (2, [25])]"
  by (simp_all add: exLoopAllocation_def alloc_defs findPhiSlot.simps findFreeSlot.simps
      exLoop_bbs exLoop_vals mk_simps exLoop_isPhi exLoop_args exLoopLiveness_eq
      exLoopStackAlloc_eq stackSlot_neq)

subsection \<open>Values that share a slot\<close>

text \<open>
  Claim C1, as the code has it. Two distinct values to which \<open>computeAllocation\<close> gives
  the same slot have liveness intervals that do not interfere, unless both belong to one
  phi with its incoming values: those are given one slot together, without a test
  against each other.
\<close>

theorem shared_slot_no_interference_or_coalesced:
  assumes "computeAllocation lv c order domOrder al = Inr (al', ra')"
      and "v1 \<noteq> v2"
      and "al' v1 = Some slot" and "al' v2 = Some slot"
      and "al v1 \<noteq> Some slot" and "al v2 \<noteq> Some slot"
  shows "noInterference lv v1 v2 \<or> coalescedTogether c (instrsOf c order) v1 v2"
proof -
  from computeAllocation_inv[OF assms(1)]
  have safe: "slotsSafe lv c (instrsOf c order) ra'" and tr: "allocTracked al al' ra'" by auto
  from tr assms(3,5) have 1: "v1 \<in> set (slotValues ra' slot)"
    unfolding allocTracked_def by blast
  from tr assms(4,6) have 2: "v2 \<in> set (slotValues ra' slot)"
    unfolding allocTracked_def by blast
  from safe[unfolded slotsSafe_def, rule_format, of v1 slot v2] 1 2 assms(2) show ?thesis by simp
qed

theorem shared_slot_no_interference_or_coalesced_witness:
  "noInterference exLoopLiveness 23 27 \<or>
   coalescedTogether exLoop (instrsOf exLoop [0, 1, 2]) 23 27"
proof -
  have r: "computeAllocation exLoopLiveness exLoop [0, 1, 2] [0, 1, 2] exLoopStackAlloc =
       Inr (fst exLoopAllocation, snd exLoopAllocation)"
    using exLoopAllocation_run by simp
  have n: "(23::nat) \<noteq> 27" by simp
  have a: "fst exLoopAllocation 23 = Some 1" "fst exLoopAllocation 27 = Some 1"
    by (simp_all add: exLoopAllocation_eq)
  have b: "exLoopStackAlloc 23 \<noteq> Some 1" "exLoopStackAlloc 27 \<noteq> Some 1"
    by (simp_all add: exLoopStackAlloc_eq)
  from shared_slot_no_interference_or_coalesced[OF r n a b] show ?thesis .
qed

text \<open>
  The claim as it is stated fails on the loop: the copy \<open>ca\<close> (at 22) and the phi \<open>p\<close>
  (at 23) are given the slot 1, which is not the stack, and their intervals in block 1
  both begin at position 0, so that they interfere.
\<close>

theorem shared_slot_interference_counterexample:
  "computeLiveness 5 exLoop exLoopCFG = Some (Inr exLoopLiveness) \<and>
   computeAllocation exLoopLiveness exLoop [0, 1, 2] [0, 1, 2]
      (computeStackAllocation exLoop [0, 1, 2] Map.empty) = Inr exLoopAllocation \<and>
   fst exLoopAllocation 22 = Some 1 \<and> fst exLoopAllocation 23 = Some 1 \<and>
   (1 :: nat) \<noteq> stackSlot \<and> (22 :: nat) \<noteq> 23 \<and>
   exLoopLiveness 22 = Some
       [\<lparr>live = True, lbegin = 1, lend = 2\<rparr>,
        \<lparr>live = True, lbegin = 0, lend = 6\<rparr>,
        \<lparr>live = False, lbegin = - 1, lend = - 1\<rparr>] \<and>
   exLoopLiveness 23 = Some
       [\<lparr>live = False, lbegin = - 1, lend = - 1\<rparr>,
        \<lparr>live = True, lbegin = 0, lend = 1\<rparr>,
        \<lparr>live = False, lbegin = - 1, lend = - 1\<rparr>] \<and>
   interfere
       [\<lparr>live = True, lbegin = 1, lend = 2\<rparr>,
        \<lparr>live = True, lbegin = 0, lend = 6\<rparr>,
        \<lparr>live = False, lbegin = - 1, lend = - 1\<rparr>]
       [\<lparr>live = False, lbegin = - 1, lend = - 1\<rparr>,
        \<lparr>live = True, lbegin = 0, lend = 1\<rparr>,
        \<lparr>live = False, lbegin = - 1, lend = - 1\<rparr>] = Inr True"
proof -
  have i: "interfere
       [\<lparr>live = True, lbegin = 1, lend = 2\<rparr>,
        \<lparr>live = True, lbegin = 0, lend = 6\<rparr>,
        \<lparr>live = False, lbegin = - 1, lend = - 1\<rparr>]
       [\<lparr>live = False, lbegin = - 1, lend = - 1\<rparr>,
        \<lparr>live = True, lbegin = 0, lend = 1\<rparr>,
        \<lparr>live = False, lbegin = - 1, lend = - 1\<rparr>] = Inr True"
    by (simp add: interfere_def overlapAt_def)
  have s: "(1 :: nat) \<noteq> stackSlot" using stackSlot_neq(3) by simp
  from exLoopLiveness_run exLoopAllocation_run exLoopAllocation_eq(2,3) s
    exLoopLiveness_eq(2,3) i
  show ?thesis unfolding exLoopStackAlloc_def by simp
qed

theorem liveness_merge_into_predecessors_witness:
  "set (liveOutOf (fst (mergeIntoPredecessors exLoopCFG 1 [] [(0, [22]), (1, [27])]
                          (Map.empty, []))) 1) = {22, 27} \<and>
   set (liveOutOf (fst (mergeIntoPredecessors exLoopCFG 1 [] [(0, [22]), (1, [27])]
                          (Map.empty, []))) 0) = {22} \<and>
   fst (mergeIntoPredecessors exLoopCFG 1 [] [(0, [22]), (1, [27])] (Map.empty, [])) 2 = None \<and>
   {0, 1} \<subseteq> set (snd (mergeIntoPredecessors exLoopCFG 1 [] [(0, [22]), (1, [27])]
                          (Map.empty, [])))"
proof -
  let ?R = "mergeIntoPredecessors exLoopCFG 1 [] [(0, [22]), (1, [27])] (Map.empty, [])"
  have h: "?R = (fst ?R, snd ?R)" by simp
  note t = liveness_merge_into_predecessors[OF h]
  have p: "immediatePredecessors exLoopCFG 1 = [0, 1]" by (simp add: exLoopCFG_def)
  have s1: "{a \<in> set [(0::nat, [22::nat]), (1, [27])]. (1::nat) = fst a \<or> isPredecessor exLoopCFG (fst a) 1}
            = {(0, [22]), (1, [27])}"
    by (auto simp: exLoopCFG_def)
  have s0: "{a \<in> set [(0::nat, [22::nat]), (1, [27])]. (0::nat) = fst a \<or> isPredecessor exLoopCFG (fst a) 0}
            = {(0, [22])}"
    by (auto simp: exLoopCFG_def)
  have m1: "(1::nat) \<in> set (immediatePredecessors exLoopCFG 1)"
    and m0: "(0::nat) \<in> set (immediatePredecessors exLoopCFG 1)"
    and m2: "(2::nat) \<notin> set (immediatePredecessors exLoopCFG 1)"
    by (simp_all add: exLoopCFG_def)
  from t m1 have "set (liveOutOf (fst ?R) 1) =
      set (liveOutOf Map.empty 1) \<union> set [] \<union>
      \<Union> (set ` snd ` {a \<in> set [(0::nat, [22::nat]), (1, [27])].
                          (1::nat) = fst a \<or> isPredecessor exLoopCFG (fst a) 1})"
    by blast
  also have "\<dots> = {22, 27}"
    unfolding s1 by (simp add: liveOutOf_def insert_commute)
  finally have a1: "set (liveOutOf (fst ?R) 1) = {22, 27}" .
  from t m0 have "set (liveOutOf (fst ?R) 0) =
      set (liveOutOf Map.empty 0) \<union> set [] \<union>
      \<Union> (set ` snd ` {a \<in> set [(0::nat, [22::nat]), (1, [27])].
                          (0::nat) = fst a \<or> isPredecessor exLoopCFG (fst a) 0})"
    by blast
  also have "\<dots> = {22}"
    unfolding s0 by (simp add: liveOutOf_def)
  finally have a0: "set (liveOutOf (fst ?R) 0) = {22}" .
  from t m2 have a2: "fst ?R 2 = None" by blast
  have g1: "set (liveOutOf (fst ?R) 1) \<noteq> set (liveOutOf Map.empty 1)"
    unfolding a1 by (simp add: liveOutOf_def)
  have g0: "set (liveOutOf (fst ?R) 0) \<noteq> set (liveOutOf Map.empty 0)"
    unfolding a0 by (simp add: liveOutOf_def)
  from t g1 have i1: "1 \<in> set (snd ?R)" by blast
  from t g0 have i0: "0 \<in> set (snd ?R)" by blast
  from i0 i1 have a3: "{0, 1} \<subseteq> set (snd ?R)" by simp
  from a1 a0 a2 a3 show ?thesis by blast
qed

subsection \<open>Phis and their incoming values\<close>

lemma verifyInstr_phi_fail:
  assumes "isPhi c p" "al p = Some slot" "v \<in> set (map snd (phiArgs c p))"
      "isInstruction c v" "allocOf al v \<noteq> slot"
  shows "\<exists>w. verifyInstr c p (al, reg, stack) = Inl (PhiInputAllocation p w)"
proof -
  from assms(3,4,5) have "\<exists>v \<in> set (map snd (phiArgs c p)). isInstruction c v \<and> allocOf al v \<noteq> slot"
    by blast
  from verifyPhiArgs_fail[OF this, of p] obtain w where
    "verifyPhiArgs c p slot (map snd (phiArgs c p)) al = Inl (PhiInputAllocation p w)" by blast
  with assms(1,2) show ?thesis by (simp add: verifyInstr_def)
qed

lemma verify_fail_uncoalesced:
  assumes "closedCFG c" "reachable c bb" "\<not> blockCoalesced c al bb"
  shows "\<exists>e. verify (Suc (card (ownEdges c))) c al = Some (Inl e)"
proof -
  from verify_terminates[OF assms(1), of al] obtain r where
    r: "verify (Suc (card (ownEdges c))) c al = Some r" by blast
  show ?thesis
  proof (cases r)
    case (Inl e)
    with r show ?thesis by simp
  next
    case (Inr g)
    with r have "verify (Suc (card (ownEdges c))) c al = Some (Inr g)" by simp
    from verify_pass_coalesced[OF this assms(2)] assms(3) show ?thesis by simp
  qed
qed

lemma precolorPhi_least:
  assumes "isPhi c p" "al p = None" "precolorPhi lv c p (al, ra) = Inr (al', ra')"
  shows "\<exists>s \<ge> 1. al' p = Some s \<and> (\<forall>v \<in> set (map snd (phiArgs c p)). al' v = Some s) \<and>
           availableForPhi lv ra s p (map snd (phiArgs c p)) \<and>
           (\<forall>s'. 1 \<le> s' \<and> s' < s \<longrightarrow> \<not> availableForPhi lv ra s' p (map snd (phiArgs c p)))"
proof -
  from precolorPhi_placed[OF assms] obtain slot where
    f: "findPhiSlot lv ra p (map snd (phiArgs c p)) unassignedSlot = Inr slot" and
    al': "al' = (\<lambda>v. if v \<in> insert p (set (map snd (phiArgs c p))) then Some slot else al v)"
    by blast
  from findPhiSlot_least[OF f] have l: "unassignedSlot < slot"
    "availableForPhi lv ra slot p (map snd (phiArgs c p))"
    "\<forall>s. unassignedSlot < s \<and> s < slot \<longrightarrow> \<not> availableForPhi lv ra s p (map snd (phiArgs c p))"
    by auto
  have 1: "1 \<le> slot" using l(1) by (simp add: unassignedSlot_def)
  have 2: "al' p = Some slot" "\<forall>v \<in> set (map snd (phiArgs c p)). al' v = Some slot"
    using al' by simp_all
  have 3: "\<forall>s'. 1 \<le> s' \<and> s' < slot \<longrightarrow> \<not> availableForPhi lv ra s' p (map snd (phiArgs c p))"
    using l(3) by (simp add: unassignedSlot_def)
  from 1 2 l(2) 3 show ?thesis by blast
qed

lemma inputsOwned_notPhi:
  "inputsOwned c ps \<Longrightarrow> p \<in> set ps \<Longrightarrow> isPhi c p \<Longrightarrow> v \<in> set (map snd (phiArgs c p)) \<Longrightarrow>
   \<not> isPhi c v"
  unfolding inputsOwned_def list_all_iff by blast

lemma inputsOwned_unique:
  "inputsOwned c ps \<Longrightarrow> p \<in> set ps \<Longrightarrow> isPhi c p \<Longrightarrow> v \<in> set (map snd (phiArgs c p)) \<Longrightarrow>
   q \<in> set ps \<Longrightarrow> isPhi c q \<Longrightarrow> v \<in> set (map snd (phiArgs c q)) \<Longrightarrow> q = p"
  unfolding inputsOwned_def list_all_iff by blast

subsection \<open>The stack pre-colouring keeps phis and their inputs together\<close>

lemma stackInv_empty: "stackInv c ps Map.empty"
  by (simp add: stackInv_def)

lemma stackInv_assign_nonphi:
  assumes inv: "stackInv c ps al" and np: "\<forall>v \<in> V. \<not> isPhi c v"
  shows "stackInv c ps (\<lambda>v. if v \<in> V then Some stackSlot else al v)"
  using inv np unfolding stackInv_def by (auto split: if_splits)

lemma stackInv_assign_phi:
  assumes inv: "stackInv c ps al" and own: "inputsOwned c ps" and i: "i \<in> set ps" "isPhi c i"
  shows "stackInv c ps ((assignAll (map snd (phiArgs c i)) stackSlot al)(i \<mapsto> stackSlot))"
proof -
  let ?vs = "map snd (phiArgs c i)"
  let ?al = "(assignAll ?vs stackSlot al)(i \<mapsto> stackSlot)"
  have al': "?al = (\<lambda>v. if v = i \<or> v \<in> set ?vs then Some stackSlot else al v)"
    by (auto simp: assignAll_apply fun_eq_iff)
  from inv have a: "\<And>v s. al v = Some s \<Longrightarrow> s = stackSlot"
    and b: "\<And>p. isPhi c p \<Longrightarrow> al p \<noteq> None \<Longrightarrow>
               p \<in> set ps \<and> (\<forall>v \<in> set (map snd (phiArgs c p)). al v \<noteq> None)"
    unfolding stackInv_def by blast+
  have 1: "s = stackSlot" if "?al v = Some s" for v s
    using that a[of v s] unfolding al' by (auto split: if_splits)
  have 2: "p \<in> set ps \<and> (\<forall>v \<in> set (map snd (phiArgs c p)). ?al v \<noteq> None)"
    if p: "isPhi c p" "?al p \<noteq> None" for p
  proof (cases "p = i")
    case True
    with i show ?thesis unfolding al' by simp
  next
    case False
    have "p \<notin> set ?vs" using inputsOwned_notPhi[OF own i] p(1) by blast
    with False p(2) have "al p \<noteq> None" unfolding al' by simp
    from b[OF p(1) this] show ?thesis unfolding al' by auto
  qed
  from 1 2 show ?thesis unfolding stackInv_def by blast
qed

lemma phiSweep_stackInv:
  "inputsOwned c ps \<Longrightarrow> set is \<subseteq> set ps \<Longrightarrow> stackInv c ps al \<Longrightarrow>
   stackInv c ps (phiSweep c bb pos is al)"
proof (induction "is" arbitrary: pos al)
  case Nil
  then show ?case by simp
next
  case (Cons i "is")
  show ?case
  proof (cases "isPhi c i \<and> argsInRightOrder c bb pos i")
    case False
    with Cons.prems(3) show ?thesis by auto
  next
    case True
    from Cons.prems(2) have i: "i \<in> set ps" and sub: "set is \<subseteq> set ps" by auto
    from True have phi: "isPhi c i" by simp
    have "stackInv c ps ((assignAll (map snd (phiArgs c i)) stackSlot al)(i \<mapsto> stackSlot))"
      by (rule stackInv_assign_phi[OF Cons.prems(3,1) i phi])
    from Cons.IH[OF Cons.prems(1) sub this]
    have ih: "stackInv c ps (phiSweep c bb (pos + 1) is
                ((assignAll (map snd (phiArgs c i)) stackSlot al)(i \<mapsto> stackSlot)))" .
    have "phiSweep c bb pos (i # is) al = phiSweep c bb (pos + 1) is
            ((assignAll (map snd (phiArgs c i)) stackSlot al)(i \<mapsto> stackSlot))"
      using True by simp
    then show ?thesis using ih by (simp only:)
  qed
qed

lemma findArgs_subset:
  "findArgs as s = Some r \<Longrightarrow> set as \<subseteq> set s \<and> set r \<subseteq> set s"
proof -
  assume "findArgs as s = Some r"
  from findArgs_decompose[OF this] obtain scanned where
    "s = scanned @ r" "subseq as scanned" by blast
  then have s: "s = scanned @ r" and e: "subseq as scanned" by simp_all
  have "x \<in> set scanned" if "x \<in> set as" for x
    using list_emb_set[OF e that] by blast
  with s show ?thesis by auto
qed

lemma windowStep_stackInv:
  assumes inv: "stackInv c ps al" and st: "\<forall>x \<in> set stack. \<not> isPhi c x"
      and r: "windowStep c i (stack, al) = (stack', al')"
  shows "stackInv c ps al' \<and> (\<forall>x \<in> set stack'. \<not> isPhi c x)"
proof -
  obtain stack1 al1 where t: "tryLoadingArgsFromStack c i (stack, al) = (stack1, al1)"
    by (cases "tryLoadingArgsFromStack c i (stack, al)")
  have 1: "stackInv c ps al1 \<and> (\<forall>x \<in> set stack1. \<not> isPhi c x)"
  proof (cases "args (vals c i) = []")
    case True
    with t inv st show ?thesis by (simp add: tryLoadingArgsFromStack_def)
  next
    case False
    show ?thesis
    proof (cases "findArgs (rev (args (vals c i))) (rev stack)")
      case None
      from tryLoading_not_found[OF None, of al] t inv st show ?thesis by simp
    next
      case (Some below)
      from tryLoading_found[OF False Some, of al] t
      have s1: "stack1 = rev below"
        and a1: "al1 = (\<lambda>v. if v \<in> set (args (vals c i)) then Some stackSlot else al v)" by simp_all
      from findArgs_subset[OF Some] have sub: "set (args (vals c i)) \<subseteq> set stack" "set below \<subseteq> set stack"
        by simp_all
      have "\<forall>v \<in> set (args (vals c i)). \<not> isPhi c v" using sub(1) st by blast
      from stackInv_assign_nonphi[OF inv this] s1 a1 sub(2) st show ?thesis by auto
    qed
  qed
  from r t have "al' = al1" "stack' = stack1 \<or> (stack' = stack1 @ [i] \<and> \<not> isPhi c i)"
    by (auto simp: windowStep_def pushable_def split: if_splits)
  with 1 show ?thesis by auto
qed

lemma windowLoop_stackInv:
  "stackInv c ps al \<Longrightarrow> \<forall>x \<in> set stack. \<not> isPhi c x \<Longrightarrow>
   stackInv c ps (snd (windowLoop c is (stack, al)))"
proof (induction "is" arbitrary: stack al)
  case Nil
  then show ?case by simp
next
  case (Cons i "is")
  obtain stack' al' where r: "windowStep c i (stack, al) = (stack', al')"
    by (cases "windowStep c i (stack, al)")
  from windowStep_stackInv[OF Cons.prems r] Cons.IH[of al' stack'] r show ?case by simp
qed

lemma stackAllocBB_stackInv:
  assumes "inputsOwned c ps" "set (instrs (bbs c bb)) \<subseteq> set ps" "stackInv c ps al"
  shows "stackInv c ps (stackAllocBB c al bb)"
  unfolding stackAllocBB_def
  by (rule windowLoop_stackInv[OF phiSweep_stackInv[OF assms]]) simp

lemma instrsOf_subset: "bb \<in> set order \<Longrightarrow> set (instrs (bbs c bb)) \<subseteq> set (instrsOf c order)"
  by (auto simp: instrsOf_def)

lemma foldl_stackAllocBB_stackInv:
  "inputsOwned c ps \<Longrightarrow> \<forall>bb \<in> set bs. set (instrs (bbs c bb)) \<subseteq> set ps \<Longrightarrow> stackInv c ps al \<Longrightarrow>
   stackInv c ps (foldl (stackAllocBB c) al bs)"
proof (induction bs arbitrary: al)
  case Nil
  then show ?case by simp
next
  case (Cons b bs)
  from Cons.prems(2) have b: "set (instrs (bbs c b)) \<subseteq> set ps"
    and bs: "\<forall>bb \<in> set bs. set (instrs (bbs c bb)) \<subseteq> set ps" by auto
  from Cons.IH[OF Cons.prems(1) bs stackAllocBB_stackInv[OF Cons.prems(1) b Cons.prems(3)]]
  show ?case by simp
qed

lemma computeStackAllocation_stackInv:
  assumes "inputsOwned c (instrsOf c order)"
  shows "stackInv c (instrsOf c order) (computeStackAllocation c order Map.empty)"
  unfolding computeStackAllocation_def
  by (rule foldl_stackAllocBB_stackInv[OF assms _ stackInv_empty]) (simp add: instrsOf_subset)

lemma stackInv_phiInv:
  assumes "stackInv c ps al"
  shows "phiInv c ps al"
proof -
  from assms have a: "\<And>v s. al v = Some s \<Longrightarrow> s = stackSlot"
    and b: "\<And>p. isPhi c p \<Longrightarrow> al p \<noteq> None \<Longrightarrow>
               (\<forall>v \<in> set (map snd (phiArgs c p)). al v \<noteq> None)"
    unfolding stackInv_def by blast+
  have "groupCoalesced c al p" if p: "isPhi c p" "al p \<noteq> None" for p
  proof -
    from p(2) a[of p] have s: "al p = Some stackSlot" by auto
    have "al v = Some stackSlot" if "v \<in> set (map snd (phiArgs c p))" for v
      using b[OF p] that a[of v] by auto
    with s show ?thesis
      unfolding groupCoalesced_def list_all_iff by (simp add: unassignedSlot_def stackSlot_def)
  qed
  then show ?thesis unfolding phiInv_def by blast
qed

subsection \<open>The slot search in terms of interference\<close>

lemma slotIsAvailableLoop_False:
  "slotIsAvailableLoop lv os i = Inr False \<Longrightarrow> \<exists>other \<in> set os. interferes lv other i"
proof (induction os)
  case Nil
  then show ?case by simp
next
  case (Cons other os)
  from Cons.prems obtain lo li where l: "lv other = Some lo" "lv i = Some li"
    by (auto split: option.splits)
  from Cons.prems l obtain b where b: "interfere lo li = Inr b"
    by (auto split: sum.splits)
  show ?case
  proof (cases b)
    case True
    with l b have "interferes lv other i" by (simp add: interferes_def)
    then show ?thesis by simp
  next
    case False
    with Cons.prems l b have "slotIsAvailableLoop lv os i = Inr False" by simp
    from Cons.IH[OF this] show ?thesis by simp
  qed
qed

lemma slotIsAvailable_False:
  "slotIsAvailable lv ra slot i = Inr False \<Longrightarrow>
   \<exists>other \<in> set (slotValues ra slot). interferes lv other i"
  unfolding slotIsAvailable_def by (rule slotIsAvailableLoop_False)

lemma slotIsAvailable_free:
  "slotIsAvailable lv ra slot i = Inr True \<Longrightarrow> slotFreeFor lv ra slot i"
  unfolding slotFreeFor_def list_all_iff by (rule slotIsAvailable_True)

lemma phiSlotOk_False:
  assumes "phiSlotOk lv ra p vs slot = Inr False"
  shows "\<exists>v \<in> insert p (set vs). \<exists>other \<in> set (slotValues ra slot). interferes lv other v"
proof -
  from assms obtain a where a: "slotIsAvailable lv ra slot p = Inr a"
    by (auto simp: phiSlotOk_def split: sum.splits)
  show ?thesis
  proof (cases a)
    case False
    with a have "slotIsAvailable lv ra slot p = Inr False" by simp
    from slotIsAvailable_False[OF this] show ?thesis by blast
  next
    case True
    with a assms have r: "phiArgsAvailable lv ra slot vs True = Inr False"
      by (simp add: phiSlotOk_def)
    have "\<exists>v \<in> set vs. slotIsAvailable lv ra slot v = Inr False"
      if "phiArgsAvailable lv ra slot vs success = Inr False" "success" for success
      using that
    proof (induction vs arbitrary: success)
      case Nil
      then show ?case by simp
    next
      case (Cons v vs)
      from Cons.prems(1) obtain b where b: "slotIsAvailable lv ra slot v = Inr b"
        and r: "phiArgsAvailable lv ra slot vs (if \<not> b then False else success) = Inr False"
        by (auto split: sum.splits)
      show ?case
      proof (cases b)
        case False
        with b show ?thesis by simp
      next
        case True
        with r Cons.prems(2) have "phiArgsAvailable lv ra slot vs success = Inr False" by simp
        from Cons.IH[OF this Cons.prems(2)] show ?thesis by simp
      qed
    qed
    from this[OF r] obtain v where v: "v \<in> set vs" "slotIsAvailable lv ra slot v = Inr False"
      by auto
    from slotIsAvailable_False[OF v(2)] v(1) show ?thesis by blast
  qed
qed

lemma findPhiSlot_skipped:
  "findPhiSlot lv ra p vs slot0 = Inr slot \<Longrightarrow>
   \<forall>s. slot0 < s \<and> s < slot \<longrightarrow> phiSlotOk lv ra p vs s = Inr False"
proof (induction lv ra p vs slot0 rule: findPhiSlot.induct)
  case (1 lv ra p vs slot0)
  from "1.prems" obtain r where ok: "phiSlotOk lv ra p vs (slot0 + 1) = Inr r"
    by (subst (asm) findPhiSlot.simps) (auto split: sum.splits)
  show ?case
  proof (cases r)
    case True
    with ok "1.prems" have "slot = slot0 + 1"
      by (subst (asm) findPhiSlot.simps) simp
    then show ?thesis by auto
  next
    case False
    with ok "1.prems" have rec: "findPhiSlot lv ra p vs (slot0 + 1) = Inr slot"
      by (subst (asm) findPhiSlot.simps) simp
    from "1.IH"[OF ok _ rec] False
    have ih: "\<forall>s. slot0 + 1 < s \<and> s < slot \<longrightarrow> phiSlotOk lv ra p vs s = Inr False" by auto
    have "phiSlotOk lv ra p vs s = Inr False" if "slot0 < s" "s < slot" for s
    proof (cases "s = slot0 + 1")
      case True
      with ok False show ?thesis by simp
    next
      case False
      with that ih show ?thesis by simp
    qed
    then show ?thesis by blast
  qed
qed

text \<open>The pre-colouring of one phi, with "available" read as "nothing in the slot interferes".\<close>

lemma precolorPhi_least_free:
  assumes "isPhi c p" "al p = None" "precolorPhi lv c p (al, ra) = Inr (al', ra')"
  shows "\<exists>s \<ge> 1. al' p = Some s \<and> (\<forall>v \<in> set (map snd (phiArgs c p)). al' v = Some s) \<and>
           (\<forall>v \<in> insert p (set (map snd (phiArgs c p))). slotFreeFor lv ra s v) \<and>
           (\<forall>s'. 1 \<le> s' \<and> s' < s \<longrightarrow>
              (\<exists>v \<in> insert p (set (map snd (phiArgs c p))).
                 \<exists>other \<in> set (slotValues ra s'). interferes lv other v))"
proof -
  let ?vs = "map snd (phiArgs c p)"
  from precolorPhi_placed[OF assms] obtain slot where
    f: "findPhiSlot lv ra p ?vs unassignedSlot = Inr slot" and
    al': "al' = (\<lambda>v. if v \<in> insert p (set ?vs) then Some slot else al v)"
    by blast
  from findPhiSlot_least[OF f] have l: "unassignedSlot < slot" "availableForPhi lv ra slot p ?vs"
    by auto
  have 1: "1 \<le> slot" using l(1) by (simp add: unassignedSlot_def)
  have 2: "al' p = Some slot" "\<forall>v \<in> set ?vs. al' v = Some slot"
    using al' by simp_all
  have 3: "\<forall>v \<in> insert p (set ?vs). slotFreeFor lv ra slot v"
    using availableForPhi_free[OF l(2)] unfolding slotFreeFor_def list_all_iff by blast
  have 4: "\<exists>v \<in> insert p (set ?vs). \<exists>other \<in> set (slotValues ra s'). interferes lv other v"
    if "1 \<le> s'" "s' < slot" for s'
  proof -
    from that findPhiSlot_skipped[OF f] have "phiSlotOk lv ra p ?vs s' = Inr False"
      by (simp add: unassignedSlot_def)
    then show ?thesis by (rule phiSlotOk_False)
  qed
  from 1 2 3 4 show ?thesis by blast
qed

subsection \<open>The slot allocation keeps phis and their inputs together\<close>

lemma groupCoalesced_cong:
  assumes "al' p = al p" "\<forall>v \<in> set (map snd (phiArgs c p)). al' v = al v"
  shows "groupCoalesced c al' p = groupCoalesced c al p"
  using assms unfolding groupCoalesced_def list_all_iff by (auto split: option.splits)

lemma groupCoalesced_allocated:
  "groupCoalesced c al p \<Longrightarrow> al p \<noteq> None \<and> (\<forall>v \<in> set (map snd (phiArgs c p)). al v \<noteq> None)"
  unfolding groupCoalesced_def list_all_iff by (auto split: option.splits)

text \<open>One step of the pre-colouring: the groups that have their slot keep it.\<close>

lemma precolorPhi_step:
  assumes own: "inputsOwned c ps" and i: "i \<in> set ps" and inv: "phiInv c ps al"
      and st: "precolorPhi lv c i (al, ra) = Inr (al', ra')"
  shows "phiInv c ps al' \<and> (isPhi c i \<longrightarrow> al' i \<noteq> None) \<and>
         (\<forall>p \<in> set ps. isPhi c p \<and> al p \<noteq> None \<longrightarrow>
            al' p = al p \<and> (\<forall>v \<in> set (map snd (phiArgs c p)). al' v = al v))"
proof (cases "isPhi c i \<and> al i = None")
  case False
  with st have "al' = al" by (auto simp: precolorPhi_def)
  with inv False show ?thesis by auto
next
  case True
  then have phi: "isPhi c i" and un: "al i = None" by auto
  let ?G = "insert i (set (map snd (phiArgs c i)))"
  from precolorPhi_placed[OF phi un st] obtain slot where
    f: "findPhiSlot lv ra i (map snd (phiArgs c i)) unassignedSlot = Inr slot" and
    al': "al' = (\<lambda>v. if v \<in> ?G then Some slot else al v)" by blast
  from findPhiSlot_least[OF f] have pos: "slot \<noteq> unassignedSlot" by auto
  have keep: "al' p = al p \<and> (\<forall>v \<in> set (map snd (phiArgs c p)). al' v = al v)"
    if p: "p \<in> set ps" "isPhi c p" "al p \<noteq> None" for p
  proof -
    from p(3) un have ne: "p \<noteq> i" by auto
    have "p \<notin> set (map snd (phiArgs c i))"
      using inputsOwned_notPhi[OF own i phi] p(2) by blast
    with ne have 1: "al' p = al p" unfolding al' by simp
    have "v \<notin> ?G" if v: "v \<in> set (map snd (phiArgs c p))" for v
    proof
      assume "v \<in> ?G"
      then consider "v = i" | "v \<in> set (map snd (phiArgs c i))" by auto
      then show False
      proof cases
        case 1
        with inputsOwned_notPhi[OF own p(1,2) v] phi show False by simp
      next
        case 2
        from inputsOwned_unique[OF own p(1,2) v i phi 2] ne show False by simp
      qed
    qed
    then have "\<forall>v \<in> set (map snd (phiArgs c p)). al' v = al v" unfolding al' by simp
    with 1 show ?thesis by simp
  qed
  have gi: "groupCoalesced c al' i"
    unfolding groupCoalesced_def list_all_iff al' using pos by simp
  have "groupCoalesced c al' p" if p: "p \<in> set ps" "isPhi c p" "al' p \<noteq> None" for p
  proof (cases "p = i")
    case True
    with gi show ?thesis by simp
  next
    case False
    have "p \<notin> set (map snd (phiArgs c i))"
      using inputsOwned_notPhi[OF own i phi] p(2) by blast
    with False p(3) have a: "al p \<noteq> None" unfolding al' by simp
    from inv p(1,2) a have "groupCoalesced c al p" unfolding phiInv_def by blast
    with keep[OF p(1,2) a] groupCoalesced_cong[of al' p al c] show ?thesis by simp
  qed
  then have 1: "phiInv c ps al'" unfolding phiInv_def by blast
  have 2: "al' i \<noteq> None" unfolding al' by simp
  from 1 2 keep show ?thesis by blast
qed

lemma runSteps_precolorPhi_groups:
  "inputsOwned c ps \<Longrightarrow> set is \<subseteq> set ps \<Longrightarrow> phiInv c ps al \<Longrightarrow>
   runSteps (precolorPhi lv c) is (al, ra) = Inr (al', ra') \<Longrightarrow>
   phiInv c ps al' \<and> (\<forall>i \<in> set is. isPhi c i \<longrightarrow> al' i \<noteq> None) \<and>
   (\<forall>p \<in> set ps. isPhi c p \<and> al p \<noteq> None \<longrightarrow>
      al' p = al p \<and> (\<forall>v \<in> set (map snd (phiArgs c p)). al' v = al v))"
proof (induction "is" arbitrary: al ra)
  case Nil
  then show ?case by simp
next
  case (Cons i "is")
  from Cons.prems(4) obtain al1 ra1 where st: "precolorPhi lv c i (al, ra) = Inr (al1, ra1)"
    and r: "runSteps (precolorPhi lv c) is (al1, ra1) = Inr (al', ra')"
    by (auto split: sum.splits)
  from Cons.prems(2) have i: "i \<in> set ps" and sub: "set is \<subseteq> set ps" by auto
  from precolorPhi_step[OF Cons.prems(1) i Cons.prems(3) st]
  have s1: "phiInv c ps al1" and s2: "isPhi c i \<longrightarrow> al1 i \<noteq> None"
    and s3: "\<And>p. p \<in> set ps \<Longrightarrow> isPhi c p \<Longrightarrow> al p \<noteq> None \<Longrightarrow>
            al1 p = al p \<and> (\<forall>v \<in> set (map snd (phiArgs c p)). al1 v = al v)" by blast+
  from Cons.IH[OF Cons.prems(1) sub s1 r]
  have t1: "phiInv c ps al'" and t2: "\<forall>i \<in> set is. isPhi c i \<longrightarrow> al' i \<noteq> None"
    and t3: "\<And>p. p \<in> set ps \<Longrightarrow> isPhi c p \<Longrightarrow> al1 p \<noteq> None \<Longrightarrow>
            al' p = al1 p \<and> (\<forall>v \<in> set (map snd (phiArgs c p)). al' v = al1 v)" by blast+
  have a: "al' i \<noteq> None" if "isPhi c i"
    using s2 that t3[OF i that] by auto
  have b: "al' p = al p \<and> (\<forall>v \<in> set (map snd (phiArgs c p)). al' v = al v)"
    if p: "p \<in> set ps" "isPhi c p" "al p \<noteq> None" for p
  proof -
    note k = s3[OF p]
    with p(3) have "al1 p \<noteq> None" by simp
    from t3[OF p(1,2) this] k show ?thesis by simp
  qed
  from t1 t2 a b show ?case by auto
qed

text \<open>The second pass gives a slot only to a value that has none.\<close>

lemma placeFree_keeps:
  assumes "placeFree lv i (al, ra) = Inr (al', ra')"
  shows "\<exists>slot. al' = al(i \<mapsto> slot)"
  using assms by (auto simp: placeFree_def split: sum.splits)

lemma allocInstr_keeps:
  assumes st: "allocInstr lv c i (al, ra) = Inr (al', ra')" and v: "al v \<noteq> None"
  shows "al' v = al v"
proof (cases "al i = None \<and> lv i \<noteq> None")
  case False
  with st show ?thesis by (auto simp: allocInstr_def)
next
  case True
  with v have ne: "v \<noteq> i" by auto
  let ?hint = "slotHint c al i"
  have "\<exists>slot. al' = al(i \<mapsto> slot)"
  proof (cases "?hint \<noteq> unassignedSlot \<and> ?hint \<noteq> stackSlot")
    case False
    with True st have "placeFree lv i (al, ra) = Inr (al', ra')"
      by (auto simp: allocInstr_def Let_def)
    then show ?thesis by (rule placeFree_keeps)
  next
    case h: True
    from True h st obtain a where a: "slotIsAvailable lv ra ?hint i = Inr a"
      by (auto simp: allocInstr_def Let_def split: sum.splits)
    show ?thesis
    proof (cases a)
      case True
      with \<open>al i = None \<and> lv i \<noteq> None\<close> h a st
      have "al' = al(i \<mapsto> ?hint)"
        by (auto simp: allocInstr_def Let_def)
      then show ?thesis by blast
    next
      case False
      with \<open>al i = None \<and> lv i \<noteq> None\<close> h a st
      have "placeFree lv i (al, ra) = Inr (al', ra')"
        by (auto simp: allocInstr_def Let_def)
      then show ?thesis by (rule placeFree_keeps)
    qed
  qed
  with ne show ?thesis by auto
qed

lemma runSteps_allocInstr_keeps:
  "runSteps (allocInstr lv c) is (al, ra) = Inr (al', ra') \<Longrightarrow> al v \<noteq> None \<Longrightarrow> al' v = al v"
proof (induction "is" arbitrary: al ra)
  case Nil
  then show ?case by simp
next
  case (Cons i "is")
  from Cons.prems(1) obtain al1 ra1 where st: "allocInstr lv c i (al, ra) = Inr (al1, ra1)"
    and r: "runSteps (allocInstr lv c) is (al1, ra1) = Inr (al', ra')"
    by (auto split: sum.splits)
  from allocInstr_keeps[OF st Cons.prems(2)] have k: "al1 v = al v" .
  with Cons.prems(2) have "al1 v \<noteq> None" by simp
  from Cons.IH[OF r this] k show ?case by simp
qed

text \<open>The allocation that the two passes return has every phi together with its inputs.\<close>

lemma computeAllocation_groups:
  assumes own: "inputsOwned c (instrsOf c order)"
      and run: "computeAllocation lv c order domOrder (computeStackAllocation c order Map.empty)
                  = Inr (al, ra)"
      and p: "p \<in> set (instrsOf c order)" "isPhi c p"
  shows "groupCoalesced c al p"
proof -
  let ?ps = "instrsOf c order"
  let ?sa = "computeStackAllocation c order Map.empty"
  from run obtain al1 ra1 where
    p1: "runSteps (precolorPhi lv c) ?ps (?sa, []) = Inr (al1, ra1)" and
    p2: "runSteps (allocInstr lv c) (instrsOf c domOrder) (al1, ra1) = Inr (al, ra)"
    by (auto simp: computeAllocation_def split: sum.splits)
  have i0: "phiInv c ?ps ?sa"
    by (rule stackInv_phiInv[OF computeStackAllocation_stackInv[OF own]])
  from runSteps_precolorPhi_groups[OF own subset_refl i0 p1] p
  have inv: "phiInv c ?ps al1" and a: "al1 p \<noteq> None" by blast+
  from inv p a have g: "groupCoalesced c al1 p" unfolding phiInv_def by blast
  from groupCoalesced_allocated[OF g] runSteps_allocInstr_keeps[OF p2]
  have "al p = al1 p" "\<forall>v \<in> set (map snd (phiArgs c p)). al v = al1 v" by auto
  from groupCoalesced_cong[OF this] g show ?thesis by simp
qed

text \<open>
  Claim C2. In code whose phi inputs are no phis and belong to one phi each, as they do
  after the CSSA transformation, the allocation that the stack pre-colouring followed by
  \<open>computeAllocation\<close> returns gives every phi a slot, numbered or the stack, and gives
  each incoming value of the phi that same slot. The pre-colouring of a phi that has no
  allocation takes the smallest slot from 1 in which no value placed before interferes
  with the phi or with one of its incoming values, and gives it to all of them: every
  smaller slot holds a value that interferes with one of them. In code that the verifier
  lets pass, every phi of a block reachable from the entry has the allocation of each of
  its incoming instructions; the verifier fails when a phi of a reachable block has an
  incoming instruction with another allocation, and it fails at the phi itself with the
  report of the phi and of the input.
\<close>

theorem phi_coalesced_with_inputs:
  "(inputsOwned c (instrsOf c order) \<and>
    computeAllocation lv c order domOrder (computeStackAllocation c order Map.empty) = Inr (al, ra) \<and>
    p \<in> set (instrsOf c order) \<and> isPhi c p \<longrightarrow> groupCoalesced c al p) \<and>
   (isPhi c p \<and> al0 p = None \<and> precolorPhi lv c p (al0, ra0) = Inr (al', ra') \<longrightarrow>
      (\<exists>s \<ge> 1. al' p = Some s \<and> (\<forall>v \<in> set (map snd (phiArgs c p)). al' v = Some s) \<and>
           (\<forall>v \<in> insert p (set (map snd (phiArgs c p))). slotFreeFor lv ra0 s v) \<and>
           (\<forall>s'. 1 \<le> s' \<and> s' < s \<longrightarrow>
              (\<exists>v \<in> insert p (set (map snd (phiArgs c p))).
                 \<exists>other \<in> set (slotValues ra0 s'). interferes lv other v)))) \<and>
   (verify n c al = Some (Inr r) \<and> reachable c bb \<longrightarrow> blockCoalesced c al bb) \<and>
   (closedCFG c \<and> reachable c bb \<and> \<not> blockCoalesced c al bb \<longrightarrow>
      (\<exists>e. verify (Suc (card (ownEdges c))) c al = Some (Inl e))) \<and>
   (isPhi c p \<and> al p = Some slot \<and> v \<in> set (map snd (phiArgs c p)) \<and>
    isInstruction c v \<and> allocOf al v \<noteq> slot \<longrightarrow>
      (\<exists>w. verifyInstr c p (al, reg, stack) = Inl (PhiInputAllocation p w)))"
proof (intro conjI impI)
  assume "inputsOwned c (instrsOf c order) \<and>
    computeAllocation lv c order domOrder (computeStackAllocation c order Map.empty) = Inr (al, ra) \<and>
    p \<in> set (instrsOf c order) \<and> isPhi c p"
  then show "groupCoalesced c al p" using computeAllocation_groups by blast
next
  assume "isPhi c p \<and> al0 p = None \<and> precolorPhi lv c p (al0, ra0) = Inr (al', ra')"
  then have a: "isPhi c p" "al0 p = None" "precolorPhi lv c p (al0, ra0) = Inr (al', ra')"
    by simp_all
  show "\<exists>s \<ge> 1. al' p = Some s \<and> (\<forall>v \<in> set (map snd (phiArgs c p)). al' v = Some s) \<and>
           (\<forall>v \<in> insert p (set (map snd (phiArgs c p))). slotFreeFor lv ra0 s v) \<and>
           (\<forall>s'. 1 \<le> s' \<and> s' < s \<longrightarrow>
              (\<exists>v \<in> insert p (set (map snd (phiArgs c p))).
                 \<exists>other \<in> set (slotValues ra0 s'). interferes lv other v))"
    by (rule precolorPhi_least_free[OF a])
next
  assume "verify n c al = Some (Inr r) \<and> reachable c bb"
  then show "blockCoalesced c al bb" using verify_pass_coalesced by blast
next
  assume "closedCFG c \<and> reachable c bb \<and> \<not> blockCoalesced c al bb"
  then show "\<exists>e. verify (Suc (card (ownEdges c))) c al = Some (Inl e)"
    using verify_fail_uncoalesced by blast
next
  assume "isPhi c p \<and> al p = Some slot \<and> v \<in> set (map snd (phiArgs c p)) \<and>
    isInstruction c v \<and> allocOf al v \<noteq> slot"
  then show "\<exists>w. verifyInstr c p (al, reg, stack) = Inl (PhiInputAllocation p w)"
    using verifyInstr_phi_fail by blast
qed

lemmas verify_defs = verify_def verifyInstr_def rememberResult_def allocIndex_def isInstruction_def

lemma fuel3: "(3::nat) = Suc (Suc (Suc 0))"
  by simp

lemma exLoop_verify: "\<exists>r. verify 3 exLoop (fst exLoopAllocation) = Some (Inr r)"
  by (simp add: fuel3 verify_defs exLoop_bbs exLoop_vals mk_simps exLoop_isPhi exLoop_args
      exLoopAllocation_eq stackSlot_neq)

lemma exLoop_reachable: "reachable exLoop 1"
proof -
  have "(0, 1) \<in> edges exLoop" by (simp add: edges_def succs_def exLoop_bbs)
  then show ?thesis by (simp add: reachable_def exLoop_bbs)
qed

lemma exLoop_closed: "closedCFG exLoop"
  by (simp add: closedCFG_def exLoop_bbs upt3)

lemma exLoop_owned: "inputsOwned exLoop (instrsOf exLoop [0, 1, 2])"
  by (simp add: inputsOwned_def instrsOf_def exLoop_bbs exLoop_isPhi exLoop_args)

lemma exLoop_pipeline:
  "computeAllocation exLoopLiveness exLoop [0, 1, 2] [0, 1, 2]
     (computeStackAllocation exLoop [0, 1, 2] Map.empty)
   = Inr (fst exLoopAllocation, snd exLoopAllocation)"
  using exLoopAllocation_run by (simp add: exLoopStackAlloc_def)

lemma exLoopBad_eq:
  "exLoopBadAllocation 21 = Some stackSlot" "exLoopBadAllocation 22 = Some 1"
  "exLoopBadAllocation 23 = Some 1" "exLoopBadAllocation 24 = Some stackSlot"
  "exLoopBadAllocation 25 = Some 2" "exLoopBadAllocation 26 = Some stackSlot"
  "exLoopBadAllocation 27 = Some 2" "exLoopBadAllocation 28 = None"
  "exLoopBadAllocation 29 = Some stackSlot" "exLoopBadAllocation 30 = None"
  by (simp_all add: exLoopBadAllocation_def exLoopAllocation_eq)

lemma fuel4: "(4::nat) = Suc (Suc (Suc (Suc 0)))"
  by simp

lemma exLoopBad_verify:
  "verify 4 exLoop exLoopBadAllocation = Some (Inl (PhiInputAllocation 23 27))"
  by (simp add: fuel4 verify_defs exLoop_bbs exLoop_vals mk_simps exLoop_isPhi exLoop_args
      exLoopBad_eq stackSlot_neq)

lemma exLoop_ownEdges: "ownEdges exLoop = {(0, 1), (1, 2), (1, 1)}"
proof -
  have s: "succs exLoop 0 = {1}" "succs exLoop 1 = {2, 1}" "succs exLoop 2 = {}"
    by (auto simp: succs_def exLoop_bbs)
  have "a < 3 \<longleftrightarrow> a = 0 \<or> a = 1 \<or> a = 2" for a :: nat by auto
  with s show ?thesis by (auto simp: ownEdges_def exLoop_bbs)
qed

lemma exLoop_card: "Suc (card (ownEdges exLoop)) = 4"
  by (simp add: exLoop_ownEdges)

lemma exLoopBad_uncoalesced: "\<not> blockCoalesced exLoop exLoopBadAllocation 1"
  by (simp add: blockCoalesced_def phiCoalesced_def exLoop_bbs exLoop_isPhi exLoop_args
      allocOf_def exLoopBad_eq isInstruction_def exLoop_vals mk_simps)

lemma exLoopTaken_precolor:
  "\<exists>al' ra'. precolorPhi exLoopLiveness exLoop 23 exLoopTaken = Inr (al', ra') \<and>
      al' 23 = Some 2"
  by (simp add: exLoopTaken_def alloc_defs findPhiSlot.simps exLoop_isPhi exLoop_args
      exLoopStackAlloc_eq exLoopLiveness_eq)

theorem phi_coalesced_with_inputs_witness:
  "groupCoalesced exLoop (fst exLoopAllocation) 23 \<and>
   (\<exists>al' ra'. precolorPhi exLoopLiveness exLoop 23 exLoopTaken = Inr (al', ra') \<and>
        al' 23 = Some 2 \<and> al' 22 = Some 2 \<and> al' 27 = Some 2 \<and>
        slotFreeFor exLoopLiveness (snd exLoopTaken) 2 23 \<and>
        (\<exists>v other. v \<in> set [23, 22, 27] \<and> other \<in> set (slotValues (snd exLoopTaken) 1) \<and>
            interferes exLoopLiveness other v)) \<and>
   blockCoalesced exLoop (fst exLoopAllocation) 1 \<and>
   verify (Suc (card (ownEdges exLoop))) exLoop exLoopBadAllocation = Some (Inl (PhiInputAllocation 23 27)) \<and>
   (\<exists>w. verifyInstr exLoop 23 (exLoopBadAllocation, Map.empty, []) = Inl (PhiInputAllocation 23 w))"
proof -
  have h1: "inputsOwned exLoop (instrsOf exLoop [0, 1, 2]) \<and>
      computeAllocation exLoopLiveness exLoop [0, 1, 2] [0, 1, 2]
        (computeStackAllocation exLoop [0, 1, 2] Map.empty)
        = Inr (fst exLoopAllocation, snd exLoopAllocation) \<and>
      23 \<in> set (instrsOf exLoop [0, 1, 2]) \<and> isPhi exLoop 23"
    using exLoop_owned exLoop_pipeline by (simp add: instrsOf_def exLoop_bbs exLoop_isPhi)
  have 1: "groupCoalesced exLoop (fst exLoopAllocation) 23"
    using phi_coalesced_with_inputs[where c = exLoop and order = "[0, 1, 2]"
        and lv = exLoopLiveness and domOrder = "[0, 1, 2]" and al = "fst exLoopAllocation"
        and ra = "snd exLoopAllocation" and p = 23] h1
    by blast
  from exLoopTaken_precolor obtain al' ra' where
    p: "precolorPhi exLoopLiveness exLoop 23 exLoopTaken = Inr (al', ra')" and
    two: "al' 23 = Some 2" by blast
  have h2: "isPhi exLoop 23 \<and> fst exLoopTaken 23 = None \<and>
      precolorPhi exLoopLiveness exLoop 23 (fst exLoopTaken, snd exLoopTaken) = Inr (al', ra')"
    using p by (simp add: exLoop_isPhi exLoopTaken_def exLoopStackAlloc_eq)
  from phi_coalesced_with_inputs[where c = exLoop and lv = exLoopLiveness and p = 23
      and ?al0.0 = "fst exLoopTaken" and ?ra0.0 = "snd exLoopTaken" and al' = al' and ra' = ra'] h2
  obtain s where s: "1 \<le> s" "al' 23 = Some s"
      "\<forall>v \<in> set (map snd (phiArgs exLoop 23)). al' v = Some s"
      "\<forall>v \<in> insert 23 (set (map snd (phiArgs exLoop 23))). slotFreeFor exLoopLiveness (snd exLoopTaken) s v"
      "\<forall>s'. 1 \<le> s' \<and> s' < s \<longrightarrow>
          (\<exists>v \<in> insert 23 (set (map snd (phiArgs exLoop 23))).
             \<exists>other \<in> set (slotValues (snd exLoopTaken) s'). interferes exLoopLiveness other v)"
    by blast
  from s(2) two have s2: "s = 2" by simp
  from s(3) have a: "al' 22 = Some 2" "al' 27 = Some 2" by (simp_all add: exLoop_args s2)
  from s(4) have b: "slotFreeFor exLoopLiveness (snd exLoopTaken) 2 23" by (simp add: s2)
  from s(5)[rule_format, of 1] have
    "\<exists>v \<in> insert 23 (set (map snd (phiArgs exLoop 23))).
        \<exists>other \<in> set (slotValues (snd exLoopTaken) 1). interferes exLoopLiveness other v"
    by (simp add: s2)
  then have c: "\<exists>v other. v \<in> set [23, 22, 27] \<and> other \<in> set (slotValues (snd exLoopTaken) 1) \<and>
            interferes exLoopLiveness other v"
    by (auto simp: exLoop_args)
  from p two a b c have 2: "\<exists>al' ra'. precolorPhi exLoopLiveness exLoop 23 exLoopTaken = Inr (al', ra') \<and>
        al' 23 = Some 2 \<and> al' 22 = Some 2 \<and> al' 27 = Some 2 \<and>
        slotFreeFor exLoopLiveness (snd exLoopTaken) 2 23 \<and>
        (\<exists>v other. v \<in> set [23, 22, 27] \<and> other \<in> set (slotValues (snd exLoopTaken) 1) \<and>
            interferes exLoopLiveness other v)"
    by blast
  from exLoop_verify obtain r where r: "verify 3 exLoop (fst exLoopAllocation) = Some (Inr r)"
    by blast
  have 3: "blockCoalesced exLoop (fst exLoopAllocation) 1"
    using phi_coalesced_with_inputs[where c = exLoop and al = "fst exLoopAllocation" and n = 3
        and r = r and bb = 1]
      r exLoop_reachable
    by blast
  have "\<exists>e. verify (Suc (card (ownEdges exLoop))) exLoop exLoopBadAllocation = Some (Inl e)"
    using phi_coalesced_with_inputs[where c = exLoop and al = exLoopBadAllocation and bb = 1]
      exLoop_closed exLoop_reachable exLoopBad_uncoalesced
    by blast
  then have 4: "verify (Suc (card (ownEdges exLoop))) exLoop exLoopBadAllocation =
      Some (Inl (PhiInputAllocation 23 27))"
    using exLoopBad_verify by (simp add: exLoop_card)
  have h5: "isPhi exLoop 23 \<and> exLoopBadAllocation 23 = Some 1 \<and>
      27 \<in> set (map snd (phiArgs exLoop 23)) \<and> isInstruction exLoop 27 \<and>
      allocOf exLoopBadAllocation 27 \<noteq> 1"
    by (simp add: exLoop_isPhi exLoop_args exLoopBad_eq isInstruction_def
        exLoop_vals mk_simps allocOf_def)
  have 5: "\<exists>w. verifyInstr exLoop 23 (exLoopBadAllocation, Map.empty, []) =
          Inl (PhiInputAllocation 23 w)"
    using phi_coalesced_with_inputs[where c = exLoop and al = exLoopBadAllocation and p = 23 and slot = 1
        and v = 27 and reg = Map.empty and stack = "[]"] h5
    by blast
  from 1 2 3 4 5 show ?thesis by blast
qed

subsection \<open>The emitter: the environment operand\<close>

lemma envIsLastArg_nat:
  assumes "0 < length (args (vals c i))" "length (args (vals c i)) < 2 ^ 64"
      "envSlot (vals c i) < 2 ^ 64"
  shows "envIsLastArg c i = (envSlot (vals c i) = length (args (vals c i)) - 1)"
proof -
  let ?n = "length (args (vals c i))"
  have "(of_nat ?n :: 64 word) - 1 = of_nat (?n - 1)"
    using assms(1) by (cases ?n) simp_all
  moreover have "((of_nat (envSlot (vals c i)) :: 64 word) = of_nat (?n - 1)) =
                 (envSlot (vals c i) = ?n - 1)"
    using assms(2,3) by (simp add: word_of_nat_eq_iff take_bit_nat_eq_self)
  ultimately show ?thesis by (simp add: envIsLastArg_def)
qed

text \<open>
  Claim C10. For an instruction that is not a phi, has an environment operand and is
  neither \<open>MkEnv\<close> nor \<open>Deopt\<close>, the emitter asserts that the environment is the last
  argument (\<^verbatim>\<open>envSlot() == nargs() - 1\<close>) before it loads or sets anything: when the
  condition fails, the first step fails, and with it the loading of the arguments and
  the emission of the block. Phis, instructions without environment, \<open>MkEnv\<close> and
  \<open>Deopt\<close> pass the first step unchanged.
\<close>

theorem env_operand_must_be_last:
  "(\<not> isPhi c i \<and> hasEnv (vals c i) \<and> \<not> explicitEnvValue c i \<and> \<not> envIsLastArg c i \<longrightarrow>
      loadAndSetEnv sen c al i s = Inl AssertionFailed \<and>
      loadArguments sen c al i s = Inl AssertionFailed \<and>
      emitInstrs dispatch sen c al (i # rest) s = Inl AssertionFailed) \<and>
   (isPhi c i \<or> \<not> hasEnv (vals c i) \<or> explicitEnvValue c i \<longrightarrow>
      loadAndSetEnv sen c al i s = Inr s) \<and>
   (0 < length (args (vals c i)) \<and> length (args (vals c i)) < 2 ^ 64 \<and>
    envSlot (vals c i) < 2 ^ 64 \<longrightarrow>
      envIsLastArg c i = (envSlot (vals c i) = length (args (vals c i)) - 1))"
proof (intro conjI impI)
  assume a: "\<not> isPhi c i \<and> hasEnv (vals c i) \<and> \<not> explicitEnvValue c i \<and> \<not> envIsLastArg c i"
  then show 1: "loadAndSetEnv sen c al i s = Inl AssertionFailed"
    by (cases s) (simp add: loadAndSetEnv_def)
  then show 2: "loadArguments sen c al i s = Inl AssertionFailed"
    by (simp add: loadArguments_def)
  then show "emitInstrs dispatch sen c al (i # rest) s = Inl AssertionFailed"
    by simp
next
  assume "isPhi c i \<or> \<not> hasEnv (vals c i) \<or> explicitEnvValue c i"
  then show "loadAndSetEnv sen c al i s = Inr s"
    by (cases s) (auto simp: loadAndSetEnv_def)
next
  assume "0 < length (args (vals c i)) \<and> length (args (vals c i)) < 2 ^ 64 \<and>
    envSlot (vals c i) < 2 ^ 64"
  then show "envIsLastArg c i = (envSlot (vals c i) = length (args (vals c i)) - 1)"
    using envIsLastArg_nat by blast
qed

lemma exEnv_vals:
  "vals exEnv 42 = \<lparr> tag = StVar, args = [40, 41], input = [], voyd = True, hasEnv = True,
                  envSlot = 0 \<rparr>"
  "vals exEnv 43 = \<lparr> tag = LdVar, args = [40], input = [], voyd = False, hasEnv = True,
                  envSlot = 0 \<rparr>"
  "vals exEnv 41 = mkInstr LdArg []"
  by (simp_all add: exEnv_def)

theorem env_operand_must_be_last_witness:
  "emitInstrs (\<lambda>i s. Inr (s, False)) exSentinels exEnv Map.empty [42, 43] ([], None) = Inl AssertionFailed \<and>
   loadAndSetEnv exSentinels exEnv Map.empty 41 ([], None) = Inr ([], None) \<and>
   envIsLastArg exEnv 43 \<and>
   loadAndSetEnv exSentinels exEnv Map.empty 43 ([], None) = Inr ([BC_push 40, BC_setEnv], Some 40)"
proof -
  have h1: "\<not> isPhi exEnv 42 \<and> hasEnv (vals exEnv 42) \<and> \<not> explicitEnvValue exEnv 42 \<and>
            \<not> envIsLastArg exEnv 42"
    by (simp add: isPhi_def explicitEnvValue_def envIsLastArg_def exEnv_vals)
  have h2: "isPhi exEnv 41 \<or> \<not> hasEnv (vals exEnv 41) \<or> explicitEnvValue exEnv 41"
    by (simp add: exEnv_vals mkInstr_def)
  have h3: "0 < length (args (vals exEnv 43)) \<and> length (args (vals exEnv 43)) < 2 ^ 64 \<and>
    envSlot (vals exEnv 43) < 2 ^ 64"
    by (simp add: exEnv_vals)
  have 1: "emitInstrs (\<lambda>i s. Inr (s, False)) exSentinels exEnv Map.empty [42, 43] ([], None) = Inl AssertionFailed"
    using env_operand_must_be_last[of exEnv 42 exSentinels Map.empty "([], None)" "\<lambda>i s. Inr (s, False)" "[43]"] h1
    by blast
  have 2: "loadAndSetEnv exSentinels exEnv Map.empty 41 ([], None) = Inr ([], None)"
    using env_operand_must_be_last[of exEnv 41 exSentinels Map.empty "([], None)"] h2
    by blast
  have 3: "envIsLastArg exEnv 43"
    using env_operand_must_be_last[of exEnv 43] h3 by (simp add: exEnv_vals)
  have 4: "loadAndSetEnv exSentinels exEnv Map.empty 43 ([], None) = Inr ([BC_push 40, BC_setEnv], Some 40)"
    using 3 by (simp add: loadAndSetEnv_def isPhi_def explicitEnvValue_def exEnv_vals envOf_def
        loadEnv_def exSentinels_def)
  from 1 2 3 4 show ?thesis by blast
qed

subsection \<open>The driver: early returns and dry runs\<close>

lemma dry_run_effects:
  "dryRun \<Longrightarrow> compile n items dryRun cls origin st = Some (Inr st') \<Longrightarrow>
     tables st' = tables st \<and> produced st \<le> produced st'"
  "dryRun \<Longrightarrow> finalize n items dryRun cls st = Some (Inr (f, st')) \<Longrightarrow>
     tables st' = tables st \<and> produced st < produced st'"
  "dryRun \<Longrightarrow> runItems n items dryRun its st = Some (Inr st') \<Longrightarrow>
     tables st' = tables st \<and> produced st \<le> produced st'"
proof (induction n items dryRun cls origin st and n items dryRun cls st and n items dryRun its st
       arbitrary: st' and f st' and st' rule: compile_finalize_runItems.induct)
  case (1 items dryRun cls origin st)
  then show ?case by simp
next
  case (2 n items dryRun cls origin st)
  let ?st1 = "st\<lparr> done_set := insert cls (done_set st) \<rparr>"
  show ?case
  proof (cases "cls \<in> done_set st")
    case True
    with "2.prems" show ?thesis by simp
  next
    case False
    show ?thesis
    proof (cases "available (tables ?st1 origin) 1")
      case True
      with False "2.prems" show ?thesis by (auto simp: Let_def)
    next
      case av: False
      with False "2.prems" obtain f where
        fin: "finalize n items dryRun cls ?st1 = Some (Inr (f, st'))"
        by (auto simp: Let_def split: option.splits sum.splits)
      have "tables st' = tables ?st1 \<and> produced ?st1 < produced st'"
        using "2.IH" False av "2.prems"(1) fin by blast
      then show ?thesis by simp
    qed
  qed
next
  case (3 items dryRun cls st)
  then show ?case by simp
next
  case (4 n items dryRun cls st)
  from "4.prems" obtain st1 where r: "runItems n items dryRun (items cls) st = Some (Inr st1)"
    and s: "st' = st1\<lparr> produced := Suc (produced st1) \<rparr>"
    by (auto split: option.splits sum.splits)
  have "tables st1 = tables st \<and> produced st \<le> produced st1"
    using "4.IH" "4.prems"(1) r by blast
  with s show ?case by simp
next
  case (5 items dryRun its st)
  then show ?case by simp
next
  case (6 n items dryRun st)
  then show ?case by simp
next
  case (7 n items dryRun e rest st)
  then show ?case by simp
next
  case (8 n items dryRun cls origin rest st)
  from "8.prems" obtain st1 where c: "compile n items dryRun cls origin st = Some (Inr st1)"
    and r: "runItems (Suc n) items dryRun rest st1 = Some (Inr st')"
    by (auto split: option.splits sum.splits)
  have a: "tables st1 = tables st \<and> produced st \<le> produced st1"
    using "8.IH"(1) "8.prems"(1) c by blast
  have b: "tables st' = tables st1 \<and> produced st1 \<le> produced st'"
    using "8.IH"(2) "8.prems"(1) c r by blast
  from a b show ?case by simp
next
  case (9 n items dryRun dt cls rest st)
  show ?case
  proof (cases "capacity (tables st dt) > 1 \<and> \<not> available (tables st dt) 1")
    case True
    with "9.prems" obtain f st1 where fin: "finalize n items dryRun cls st = Some (Inr (f, st1))"
      and r: "runItems (Suc n) items dryRun rest st1 = Some (Inr st')"
      by (auto split: option.splits sum.splits)
    have r': "runItems (Suc n) items dryRun rest
               (if \<not> dryRun
                then st1\<lparr> tables := (tables st1)(dt := put (tables st1 dt) 1 f) \<rparr>
                else st1) = Some (Inr st')"
      using r "9.prems"(1) by simp
    have a: "tables st1 = tables st \<and> produced st < produced st1"
      using "9.IH"(1) True "9.prems"(1) fin by blast
    have b: "tables st' = tables st1 \<and> produced st1 \<le> produced st'"
      using "9.IH"(2)[OF True fin refl refl "9.prems"(1) r'] "9.prems"(1) by simp
    from a b show ?thesis by simp
  next
    case False
    with "9.prems" have r: "runItems (Suc n) items dryRun rest st = Some (Inr st')" by auto
    show ?thesis using "9.IH"(3) False "9.prems"(1) r by blast
  qed
qed


text \<open>
  Claim C9. \<open>compile\<close> returns at once, with the state as it is, when the closure is in
  the set \<open>done\<close>; it returns after entering the closure in the set, with no function
  produced and no table changed, when the dispatch table of the origin has tier 1. With
  the flag \<open>DryRun\<close> it lowers the closure (a function is produced) and returns without
  putting it into the table: no dispatch table is changed by a dry run.
\<close>

theorem compile_returns_early_and_dry_run:
  "(cls \<in> done_set st \<longrightarrow> compile (Suc n) items dryRun cls origin st = Some (Inr st)) \<and>
   (cls \<notin> done_set st \<and> available (tables st origin) 1 \<longrightarrow>
      compile (Suc n) items dryRun cls origin st =
        Some (Inr (st\<lparr> done_set := insert cls (done_set st) \<rparr>))) \<and>
   (cls \<notin> done_set st \<and> \<not> available (tables st origin) 1 \<and>
    finalize n items True cls (st\<lparr> done_set := insert cls (done_set st) \<rparr>) = Some (Inr (f, st2)) \<longrightarrow>
      compile (Suc n) items True cls origin st = Some (Inr st2) \<and>
      tables st2 = tables st \<and> produced st < produced st2) \<and>
   (compile n items True cls origin st = Some (Inr st') \<longrightarrow> tables st' = tables st)"
proof (intro conjI impI)
  assume "cls \<in> done_set st"
  then show "compile (Suc n) items dryRun cls origin st = Some (Inr st)" by simp
next
  assume "cls \<notin> done_set st \<and> available (tables st origin) 1"
  then show "compile (Suc n) items dryRun cls origin st =
        Some (Inr (st\<lparr> done_set := insert cls (done_set st) \<rparr>))"
    by (simp add: Let_def)
next
  assume a: "cls \<notin> done_set st \<and> \<not> available (tables st origin) 1 \<and>
    finalize n items True cls (st\<lparr> done_set := insert cls (done_set st) \<rparr>) = Some (Inr (f, st2))"
  then show "compile (Suc n) items True cls origin st = Some (Inr st2)"
    by (simp add: Let_def)
  from a dry_run_effects(2)[of True n items cls "st\<lparr> done_set := insert cls (done_set st) \<rparr>" f st2]
  show "tables st2 = tables st" "produced st < produced st2" by simp_all
next
  assume "compile n items True cls origin st = Some (Inr st')"
  with dry_run_effects(1)[of True n items cls origin st st'] show "tables st' = tables st"
    by simp
qed

lemma exCompiler_dry:
  "finalize 6 exItems True 1 (exCompilerState\<lparr> done_set := insert 1 (done_set exCompilerState) \<rparr>) =
     Some (Inr (\<lparr> ofClosure = 1, invocationCount = 0, envLeaked = False, envChanged = False,
                    signature = 0 \<rparr>,
                 \<lparr> done_set = {1, 2}, tables = exTables, produced = 3 \<rparr>))"
  by (simp add: eval_nat_numeral exItems_def exCompilerState_def exTables_def available_def
      insert_commute)

theorem compile_returns_early_and_dry_run_witness:
  "compile (Suc 0) exItems False 1 10 (exCompilerState\<lparr> done_set := {1} \<rparr>) =
     Some (Inr (exCompilerState\<lparr> done_set := {1} \<rparr>)) \<and>
   compile (Suc 0) exItems False 1 10
       (exCompilerState\<lparr> tables := exTables(10 := put (exTables 10) 1 (exBaseline 1)) \<rparr>) =
     Some (Inr (exCompilerState\<lparr> tables := exTables(10 := put (exTables 10) 1 (exBaseline 1)),
                                    done_set := {1} \<rparr>)) \<and>
   compile 7 exItems True 1 10 exCompilerState =
     Some (Inr \<lparr> done_set = {1, 2}, tables = exTables, produced = 3 \<rparr>)"
proof -
  have h1: "1 \<in> done_set (exCompilerState\<lparr> done_set := {1} \<rparr>)" by simp
  let ?st = "exCompilerState\<lparr> tables := exTables(10 := put (exTables 10) 1 (exBaseline 1)) \<rparr>"
  have h2: "1 \<notin> done_set ?st \<and> available (tables ?st 10) 1"
    by (simp add: exCompilerState_def available_def put_def)
  have h3: "1 \<notin> done_set exCompilerState \<and> \<not> available (tables exCompilerState 10) 1 \<and>
    finalize 6 exItems True 1 (exCompilerState\<lparr> done_set := insert 1 (done_set exCompilerState) \<rparr>) =
     Some (Inr (\<lparr> ofClosure = 1, invocationCount = 0, envLeaked = False, envChanged = False,
                    signature = 0 \<rparr>,
                 \<lparr> done_set = {1, 2}, tables = exTables, produced = 3 \<rparr>))"
    using exCompiler_dry by (simp add: exCompilerState_def exTables_def available_def)
  have 1: "compile (Suc 0) exItems False 1 10 (exCompilerState\<lparr> done_set := {1} \<rparr>) =
     Some (Inr (exCompilerState\<lparr> done_set := {1} \<rparr>))"
    using compile_returns_early_and_dry_run[of 1 "exCompilerState\<lparr> done_set := {1} \<rparr>" 0 exItems False 10] h1
    by blast
  have 2: "compile (Suc 0) exItems False 1 10 ?st =
     Some (Inr (?st\<lparr> done_set := insert 1 (done_set ?st) \<rparr>))"
    using compile_returns_early_and_dry_run[of 1 ?st 0 exItems False 10] h2 by blast
  have 3: "compile (Suc 6) exItems True 1 10 exCompilerState =
     Some (Inr \<lparr> done_set = {1, 2}, tables = exTables, produced = 3 \<rparr>)"
    using compile_returns_early_and_dry_run[of 1 exCompilerState 6 exItems _ 10] h3 by blast
  have e: "?st\<lparr> done_set := insert 1 (done_set ?st) \<rparr> =
      exCompilerState\<lparr> tables := exTables(10 := put (exTables 10) 1 (exBaseline 1)), done_set := {1} \<rparr>"
    by (simp add: exCompilerState_def)
  have s: "Suc 6 = 7" by simp
  from 1 2 3 show ?thesis unfolding e s by blast
qed

subsection \<open>The CSSA transformation\<close>


















































end
